theory Spec2Isabelle
  imports Main "HOL-Library.Word"
begin

section \<open>Data model of the type registry\<close>

text \<open>
  \<^verbatim>\<open>Type\<close> is an unsigned short: \<^verbatim>\<open>SchemeSmob::ss_get_type\<close> asserts
  \<^verbatim>\<open>2 == sizeof(Type)\<close> and converts it with \<^verbatim>\<open>scm_from_ushort\<close>. Arithmetic on it
  wraps modulo \<open>2 ^ 16\<close>.
\<close>

type_synonym Type = "16 word"

text \<open>
  The values of the embedded interpreter that the binding layer handles: the empty list,
  symbols, strings, integers, pairs, and anything else.
\<close>

datatype SCM =
  SCM_EOL | SCM_Symbol string | SCM_String string | SCM_Int int | SCM_Pair SCM SCM | SCM_Other

text \<open>
  \<^verbatim>\<open>OutOfBounds\<close> stands for an access \<^verbatim>\<open>v[i]\<close> to a \<^verbatim>\<open>std::vector\<close> with \<open>i\<close> not
  below its size (undefined behaviour in the source); \<^verbatim>\<open>WrongTypeArg\<close> for the non-local
  exit of \<^verbatim>\<open>scm_wrong_type_arg_msg (subr, pos, bad_value, expected)\<close>.
\<close>

datatype error = OutOfBounds | WrongTypeArg string nat SCM string

text \<open>
  The members of \<^verbatim>\<open>ClassServer\<close>. The two matrices are \<^verbatim>\<open>std::vector<std::vector<bool>>\<close>,
  the two tables are \<^verbatim>\<open>std::unordered_map\<close>s. \<^verbatim>\<open>code2NameMap\<close> stores a pointer to the key
  held by \<^verbatim>\<open>name2CodeMap\<close>; the model stores the string pointed to.
\<close>

record ClassServer =
  nTypes :: Type
  inheritanceMap :: "bool list list"
  recursiveMap :: "bool list list"
  name2CodeMap :: "string \<rightharpoonup> Type"
  code2NameMap :: "Type \<rightharpoonup> string"

text \<open>
  What a call does that is not a change of the members: taking and releasing
  \<^verbatim>\<open>type_mutex\<close>, and firing \<^verbatim>\<open>_addTypeSignal\<close>, which calls every subscriber with the type
  code. The signal event records the members as they are when it fires.
\<close>

datatype event = Lock | Unlock | Signal Type ClassServer

text \<open>The constructor, before it runs the generated list of \<^verbatim>\<open>addType\<close> calls.\<close>

definition ClassServer_init :: ClassServer where
  "ClassServer_init =
     \<lparr>nTypes = 0, inheritanceMap = [], recursiveMap = [],
      name2CodeMap = Map.empty, code2NameMap = Map.empty\<rparr>"

subsection \<open>Vectors\<close>

text \<open>\<^verbatim>\<open>v.resize(n, d)\<close>: cut to \<open>n\<close> elements, or fill up with \<open>d\<close>.\<close>

definition resize :: "nat \<Rightarrow> 'a \<Rightarrow> 'a list \<Rightarrow> 'a list" where
  "resize n d xs = take n xs @ replicate (n - length xs) d"

text \<open>\<^verbatim>\<open>m[a][b]\<close> is an access inside both vectors.\<close>

definition in_range :: "bool list list \<Rightarrow> Type \<Rightarrow> Type \<Rightarrow> bool" where
  "in_range m a b = (unat a < length m \<and> unat b < length (m ! unat a))"

text \<open>\<^verbatim>\<open>m[a][b] = true\<close>, for an access that is in range.\<close>

definition set_true :: "bool list list \<Rightarrow> Type \<Rightarrow> Type \<Rightarrow> bool list list" where
  "set_true m a b = m[unat a := (m ! unat a)[unat b := True]]"

section \<open>Read queries\<close>

text \<open>
  \<^verbatim>\<open>NOTYPE\<close> is declared in a generated header that is not among the sources; every
  function that mentions it takes its value as the first argument. The registrations that
  are worked out below take the last value of \<^verbatim>\<open>Type\<close>, \<open>0xFFFF\<close>, for it.
\<close>

definition getType :: "Type \<Rightarrow> string \<Rightarrow> ClassServer \<Rightarrow> Type" where
  "getType NOTYPE typeName s =
     (case name2CodeMap s typeName of None \<Rightarrow> NOTYPE | Some t \<Rightarrow> t)"

definition nullString :: string where
  "nullString = ''*** Unknown Type! ***''"

definition getTypeName :: "Type \<Rightarrow> ClassServer \<Rightarrow> string" where
  "getTypeName type s =
     (case code2NameMap s type of Some name \<Rightarrow> name | None \<Rightarrow> nullString)"

definition isDefined :: "string \<Rightarrow> ClassServer \<Rightarrow> bool" where
  "isDefined typeName s = (name2CodeMap s typeName \<noteq> None)"

definition getNumberOfClasses :: "ClassServer \<Rightarrow> Type" where
  "getNumberOfClasses s = nTypes s"

definition isA_non_recursive :: "Type \<Rightarrow> Type \<Rightarrow> ClassServer \<Rightarrow> error + bool" where
  "isA_non_recursive type parent s =
     (if type \<ge> nTypes s \<or> parent \<ge> nTypes s then Inr False
      else if \<not> in_range (inheritanceMap s) parent type then Inl OutOfBounds
      else Inr (inheritanceMap s ! unat parent ! unat type))"

text \<open>
  Modelled from the spec: \<^verbatim>\<open>isA\<close> is defined in \<^verbatim>\<open>ClassServer.h\<close>, which is not among
  the sources. The spec has it read the ancestor relation at (child, parent), false for
  any index out of range; the cell that \<^verbatim>\<open>setParentRecursively (parent, type)\<close> sets for
  "type is a parent" is \<^verbatim>\<open>recursiveMap[parent][type]\<close>.
\<close>

definition isA :: "Type \<Rightarrow> Type \<Rightarrow> ClassServer \<Rightarrow> bool" where
  "isA child parent s =
     (child < nTypes s \<and> parent < nTypes s \<and> in_range (recursiveMap s) parent child
      \<and> recursiveMap s ! unat parent ! unat child)"

section \<open>Closure propagation\<close>

text \<open>
  \<^verbatim>\<open>setParentRecursively\<close> calls itself from inside its loop and may not return, so it is a
  partial function: \<open>None\<close> is a run that never returns. The recursive function is the
  loop from index \<open>i\<close> on, with the body of the call \<^verbatim>\<open>setParentRecursively(i, type)\<close>
  (the assignment, then the loop from 0) written out in it; \<open>setParentRecursively\<close> below is
  the whole function and \<open>setParentRecursively_loop_unfold\<close> states the loop in terms of it.
\<close>

partial_function (option) setParentRecursively_loop ::
  "Type \<Rightarrow> Type \<Rightarrow> Type \<Rightarrow> ClassServer \<Rightarrow> (error + ClassServer) option"
where
  "setParentRecursively_loop i parent type s =
    (if i < nTypes s then
       (if \<not> in_range (recursiveMap s) i parent then Some (Inl OutOfBounds)
        else if recursiveMap s ! unat i ! unat parent \<and> i \<noteq> parent then
          (if \<not> in_range (recursiveMap s) i type then Some (Inl OutOfBounds)
           else
             Option.bind
               (setParentRecursively_loop 0 i type
                  (s\<lparr>recursiveMap := set_true (recursiveMap s) i type\<rparr>))
               (\<lambda>r. case r of
                      Inl e \<Rightarrow> Some (Inl e)
                    | Inr s' \<Rightarrow> setParentRecursively_loop (i + 1) parent type s'))
        else setParentRecursively_loop (i + 1) parent type s)
     else Some (Inr s))"

declare setParentRecursively_loop.simps [code]

definition setParentRecursively ::
  "Type \<Rightarrow> Type \<Rightarrow> ClassServer \<Rightarrow> (error + ClassServer) option"
where
  "setParentRecursively parent type s =
     (if \<not> in_range (recursiveMap s) parent type then Some (Inl OutOfBounds)
      else setParentRecursively_loop 0 parent type
             (s\<lparr>recursiveMap := set_true (recursiveMap s) parent type\<rparr>))"

section \<open>Registration\<close>

text \<open>
  The result of \<open>addType\<close>: the returned code, the members after the call, and the events
  of the call in order. The first \<open>Lock\<close>, \<open>Unlock\<close> pair is the \<^verbatim>\<open>lock_guard\<close> inside
  \<^verbatim>\<open>getType\<close>.
\<close>

definition addType ::
  "Type \<Rightarrow> Type \<Rightarrow> string \<Rightarrow> ClassServer \<Rightarrow> (error + Type \<times> ClassServer \<times> event list) option"
where
  "addType NOTYPE parent name s =
     (let type = getType NOTYPE name s in
      if type \<noteq> NOTYPE then
        (if \<not> in_range (inheritanceMap s) parent type then Some (Inl OutOfBounds)
         else
           Option.bind
             (setParentRecursively parent type
                (s\<lparr>inheritanceMap := set_true (inheritanceMap s) parent type\<rparr>))
             (\<lambda>r. case r of
                    Inl e \<Rightarrow> Some (Inl e)
                  | Inr s' \<Rightarrow> Some (Inr (type, s', [Lock, Unlock, Lock, Unlock]))))
      else
        (let type = nTypes s;
             s1 = s\<lparr>nTypes := nTypes s + 1\<rparr>;
             n = unat (nTypes s1);
             s2 = s1\<lparr>inheritanceMap := map (resize n False) (resize n [] (inheritanceMap s1)),
                     recursiveMap := map (resize n False) (resize n [] (recursiveMap s1))\<rparr>
         in
         if \<not> in_range (inheritanceMap s2) type type then Some (Inl OutOfBounds)
         else
           (let s3 = s2\<lparr>inheritanceMap := set_true (inheritanceMap s2) type type\<rparr> in
            if \<not> in_range (inheritanceMap s3) parent type then Some (Inl OutOfBounds)
            else
              (let s4 = s3\<lparr>inheritanceMap := set_true (inheritanceMap s3) parent type\<rparr> in
               if \<not> in_range (recursiveMap s4) type type then Some (Inl OutOfBounds)
               else
                 (let s5 = s4\<lparr>recursiveMap := set_true (recursiveMap s4) type type\<rparr> in
                  Option.bind (setParentRecursively parent type s5)
                    (\<lambda>r. case r of
                           Inl e \<Rightarrow> Some (Inl e)
                         | Inr s6 \<Rightarrow>
                             (let s7 = s6\<lparr>name2CodeMap := (name2CodeMap s6)(name \<mapsto> type)\<rparr>;
                                  s8 = s7\<lparr>code2NameMap := (code2NameMap s7)(type \<mapsto> name)\<rparr>
                              in Some (Inr (type, s8,
                                    [Lock, Unlock, Lock, Unlock, Signal type s8])))))))))"

text \<open>A sequence of calls \<^verbatim>\<open>addType(parent, name)\<close>, each on the members the last one left.\<close>

fun addTypes ::
  "Type \<Rightarrow> (Type \<times> string) list \<Rightarrow> ClassServer \<Rightarrow> (error + ClassServer) option"
where
  "addTypes NOTYPE [] s = Some (Inr s)"
| "addTypes NOTYPE ((parent, name) # calls) s =
     Option.bind (addType NOTYPE parent name s)
       (\<lambda>r. case r of
              Inl e \<Rightarrow> Some (Inl e)
            | Inr (type, s', evs) \<Rightarrow> addTypes NOTYPE calls s')"

section \<open>The binding layer\<close>

text \<open>
  The binding layer asks \<^verbatim>\<open>nameserver()\<close>, which the model takes to be the registry above.

  \<^verbatim>\<open>ss_get_types\<close>: the loop decrements \<open>t\<close> before it reads the name, and leaves when
  \<open>t\<close> is 0 after the decrement. The symbol is made from the name of the type; the model
  takes it to carry that name as the registry holds it.
\<close>

function ss_get_types_loop :: "Type \<Rightarrow> SCM \<Rightarrow> ClassServer \<Rightarrow> SCM" where
  "ss_get_types_loop t list s =
     (let t' = t - 1;
          sym = SCM_Symbol (getTypeName t' s);
          list' = SCM_Pair sym list
      in if 0 = t' then list' else ss_get_types_loop t' list' s)"
  by pat_completeness auto

termination ss_get_types_loop
proof (relation "measure (\<lambda>(t, list, s). unat (t - 1))")
  show "wf (measure (\<lambda>(t, list, s). unat (t - 1)))"
    by simp
next
  fix t :: Type and list :: SCM and s :: ClassServer and x xa xb
  assume "x = t - 1" and "\<not> 0 = x"
  then have nz: "t - 1 \<noteq> 0"
    by simp
  then have "unat (t - 1 - 1) = unat (t - 1) - 1"
    by (rule unat_minus_one)
  moreover have "0 < unat (t - 1)"
    using nz by (simp add: unat_gt_0)
  ultimately have "unat (t - 1 - 1) < unat (t - 1)"
    by simp
  with \<open>x = t - 1\<close> show "((x, xb, s), (t, list, s)) \<in> measure (\<lambda>(t, list, s). unat (t - 1))"
    by simp
qed

declare ss_get_types_loop.simps [simp del]


text \<open>
  \<^verbatim>\<open>ss_get_type\<close> reads its argument through \<^verbatim>\<open>const char * ct\<close>: both \<^verbatim>\<open>getType(ct)\<close>,
  which builds its \<^verbatim>\<open>std::string\<close> from the pointer, and \<^verbatim>\<open>strcmp(ct, "Notype")\<close> see the
  characters before the first NUL and nothing after it. \<open>c_str\<close> is that reading of the
  characters of a string of the interpreter.
\<close>

definition c_str :: "string \<Rightarrow> string" where
  "c_str cs = takeWhile (\<lambda>c. c \<noteq> CHR 0x00) cs"


section \<open>Registry states\<close>

text \<open>
  Both matrices are square of side \<open>nTypes\<close>: what \<open>addType\<close> leaves after it has resized
  them.
\<close>

definition square :: "nat \<Rightarrow> bool list list \<Rightarrow> bool" where
  "square n m = (length m = n \<and> (\<forall>row \<in> set m. length row = n))"

definition wf_matrices :: "ClassServer \<Rightarrow> bool" where
  "wf_matrices s =
     (square (unat (nTypes s)) (inheritanceMap s) \<and> square (unat (nTypes s)) (recursiveMap s))"

text \<open>Every name is bound to a code below \<open>nTypes\<close>, and every code with a name is below it.\<close>

definition names_live :: "ClassServer \<Rightarrow> bool" where
  "names_live s = (\<forall>name t. name2CodeMap s name = Some t \<longrightarrow> t < nTypes s)"

definition codes_live :: "ClassServer \<Rightarrow> bool" where
  "codes_live s = (\<forall>t name. code2NameMap s t = Some name \<longrightarrow> t < nTypes s)"

text \<open>
  The two tables are inverse to each other, and the codes with a name are the codes below
  \<open>nTypes\<close>.
\<close>

definition names_bijective :: "ClassServer \<Rightarrow> bool" where
  "names_bijective s =
     (\<forall>name t. name2CodeMap s name = Some t \<longleftrightarrow> code2NameMap s t = Some name)"

definition codes_named :: "ClassServer \<Rightarrow> bool" where
  "codes_named s = (\<forall>t. t < nTypes s \<longleftrightarrow> code2NameMap s t \<noteq> None)"

text \<open>
  The ancestor relation that \<^verbatim>\<open>recursiveMap\<close> holds, off its diagonal: the pair \<open>(i, p)\<close>
  says that \<^verbatim>\<open>recursiveMap[i][p]\<close> is set, that is, \<open>i\<close> is an ancestor of \<open>p\<close>. These are
  the cells the loop of \<^verbatim>\<open>setParentRecursively\<close> follows.
\<close>

definition anc_rel :: "ClassServer \<Rightarrow> (Type \<times> Type) set" where
  "anc_rel s = {(i, p). i < nTypes s \<and> p < nTypes s \<and> i \<noteq> p \<and> recursiveMap s ! unat i ! unat p}"

text \<open>
  \<open>marked p t s\<close>: the cell \<^verbatim>\<open>recursiveMap[p][t]\<close> is set, and so it is for every row that
  propagation from \<open>p\<close> goes on to. The definition is inductive, so the rows that are
  reached from \<open>p\<close> do not lead back to it.
\<close>

inductive marked :: "Type \<Rightarrow> Type \<Rightarrow> ClassServer \<Rightarrow> bool" where
  markedI: "in_range (recursiveMap s) p t \<Longrightarrow> recursiveMap s ! unat p ! unat t
    \<Longrightarrow> (\<And>j. j < nTypes s \<Longrightarrow> in_range (recursiveMap s) j p)
    \<Longrightarrow> (\<And>j. j < nTypes s \<Longrightarrow> recursiveMap s ! unat j ! unat p \<Longrightarrow> j \<noteq> p \<Longrightarrow> marked j t s)
    \<Longrightarrow> marked p t s"

text \<open>
  \<open>extends t m m'\<close>: the matrix \<open>m'\<close> has the shape of \<open>m\<close>, every cell set in \<open>m\<close> is set
  in \<open>m'\<close>, and the two differ in column \<open>t\<close> only.
\<close>

definition extends :: "Type \<Rightarrow> bool list list \<Rightarrow> bool list list \<Rightarrow> bool" where
  "extends t m m' =
     (map length m' = map length m
      \<and> (\<forall>(a :: Type) (b :: Type). m ! unat a ! unat b \<longrightarrow> m' ! unat a ! unat b)
      \<and> (\<forall>(a :: Type) (b :: Type). b \<noteq> t \<longrightarrow> m' ! unat a ! unat b = m ! unat a ! unat b))"

text \<open>What the loop from index \<open>i\<close> has established when it returns \<open>s'\<close>.\<close>

definition visit_post :: "Type \<Rightarrow> Type \<Rightarrow> Type \<Rightarrow> ClassServer \<Rightarrow> ClassServer \<Rightarrow> bool" where
  "visit_post i p t s s' =
     (\<exists>rm'. s' = s\<lparr>recursiveMap := rm'\<rparr> \<and> extends t (recursiveMap s) rm'
        \<and> (\<forall>q. rm' ! unat q ! unat t \<and> \<not> recursiveMap s ! unat q ! unat t \<longrightarrow> marked q t s')
        \<and> (\<forall>j. i \<le> j \<and> j < nTypes s \<and> j \<noteq> p \<and> recursiveMap s ! unat j ! unat p \<longrightarrow> marked j t s')
        \<and> (\<forall>j. i \<le> j \<and> j < nTypes s \<longrightarrow> in_range (recursiveMap s) j p))"

text \<open>
  The matrices after the resize in \<open>addType\<close>, and the members when \<open>addType\<close> calls
  \<open>setParentRecursively\<close> for a new name.
\<close>

definition grown :: "bool list list \<Rightarrow> Type \<Rightarrow> bool list list" where
  "grown m n = map (resize (unat n) False) (resize (unat n) [] m)"

definition fresh :: "Type \<Rightarrow> ClassServer \<Rightarrow> ClassServer" where
  "fresh parent s =
     s\<lparr>nTypes := nTypes s + 1,
       inheritanceMap :=
         set_true (set_true (grown (inheritanceMap s) (nTypes s + 1)) (nTypes s) (nTypes s))
           parent (nTypes s),
       recursiveMap := set_true (grown (recursiveMap s) (nTypes s + 1)) (nTypes s) (nTypes s)\<rparr>"

text \<open>The type codes that a list of events signals, and a list of the interpreter.\<close>

fun signalled :: "event list \<Rightarrow> Type list" where
  "signalled [] = []"
| "signalled (Signal t s # evs) = t # signalled evs"
| "signalled (ev # evs) = signalled evs"


text \<open>The registry after \<^verbatim>\<open>addType(0, "A")\<close>, and after \<^verbatim>\<open>addType(0, "B")\<close> on top of it.\<close>

definition reg_A :: ClassServer where
  "reg_A = \<lparr>nTypes = 1, inheritanceMap = [[True]], recursiveMap = [[True]],
     name2CodeMap = [''A'' \<mapsto> 0], code2NameMap = [0 \<mapsto> ''A'']\<rparr>"

definition reg_AB :: ClassServer where
  "reg_AB = \<lparr>nTypes = 2, inheritanceMap = [[True, True], [False, True]],
     recursiveMap = [[True, True], [False, True]],
     name2CodeMap = [''A'' \<mapsto> 0, ''B'' \<mapsto> 1], code2NameMap = [0 \<mapsto> ''A'', 1 \<mapsto> ''B'']\<rparr>"

text \<open>
  The registry after \<^verbatim>\<open>addType(1, "C")\<close> on top of that, and the one with A and B in which
  every cell of \<^verbatim>\<open>recursiveMap\<close> is set.
\<close>

definition reg_ABC :: ClassServer where
  "reg_ABC = \<lparr>nTypes = 3,
     inheritanceMap = [[True, True, False], [False, True, True], [False, False, True]],
     recursiveMap = [[True, True, True], [False, True, True], [False, False, True]],
     name2CodeMap = [''A'' \<mapsto> 0, ''B'' \<mapsto> 1, ''C'' \<mapsto> 2],
     code2NameMap = [0 \<mapsto> ''A'', 1 \<mapsto> ''B'', 2 \<mapsto> ''C'']\<rparr>"

definition all_set_AB :: ClassServer where
  "all_set_AB = reg_AB\<lparr>recursiveMap := [[True, True], [True, True]]\<rparr>"

text \<open>
  The direct-parent relation that \<^verbatim>\<open>inheritanceMap\<close> holds: the pair \<open>(p, c)\<close> says that
  \<open>isA_non_recursive c p\<close> is true. \<open>closure_sound\<close>: every cell of \<^verbatim>\<open>recursiveMap\<close> that
  is set joins two codes that a path of direct edges joins.
\<close>

definition direct :: "ClassServer \<Rightarrow> (Type \<times> Type) set" where
  "direct s = {(p, c). isA_non_recursive c p s = Inr True}"

definition closure_sound :: "ClassServer \<Rightarrow> bool" where
  "closure_sound s =
     (\<forall>a b. a < nTypes s \<and> b < nTypes s \<and> recursiveMap s ! unat a ! unat b \<longrightarrow> (a, b) \<in> (direct s)\<^sup>*)"

text \<open>
  What every registry reached by \<open>addType\<close> satisfies: square matrices, names bound to
  codes below \<open>nTypes\<close>, and an ancestor matrix inside the closure of the direct edges.
\<close>

definition registry_inv :: "ClassServer \<Rightarrow> bool" where
  "registry_inv s = (wf_matrices s \<and> names_live s \<and> closure_sound s)"

section \<open>Vectors, matrices and words\<close>

lemma length_resize: "length (resize n d xs) = n"
  by (simp add: resize_def)

lemma nth_resize: "i < n \<Longrightarrow> resize n d xs ! i = (if i < length xs then xs ! i else d)"
  by (simp add: resize_def nth_append)

lemma square_grown: "square (unat n) (grown m n)"
  by (auto simp: square_def grown_def length_resize)

lemma in_range_grown: "in_range (grown m n) a b \<longleftrightarrow> unat a < unat n \<and> unat b < unat n"
  using square_grown [of n m] by (auto simp: square_def in_range_def)

lemma nth_grown:
  assumes "square k m" and "a < unat n" and "b < unat n"
  shows "grown m n ! a ! b = (a < k \<and> b < k \<and> m ! a ! b)"
proof -
  have row: "grown m n ! a = resize (unat n) False (resize (unat n) [] m ! a)"
    using assms(2) by (simp add: grown_def length_resize)
  show ?thesis
  proof (cases "a < k")
    case True
    with assms(1) have "length (m ! a) = k" and "a < length m" by (simp_all add: square_def)
    with assms row True show ?thesis by (simp add: nth_resize)
  next
    case False
    with assms(1) have "\<not> a < length m" by (simp add: square_def)
    with assms row False show ?thesis by (simp add: nth_resize)
  qed
qed

lemma square_set_true: "square n m \<Longrightarrow> square n (set_true m a b)"
proof (cases "unat a < length m")
  case True
  assume sq: "square n m"
  have "set (m[unat a := (m ! unat a)[unat b := True]]) \<subseteq> insert ((m ! unat a)[unat b := True]) (set m)"
    by (rule set_update_subset_insert)
  moreover have "length ((m ! unat a)[unat b := True]) = n"
    using sq True by (simp add: square_def)
  ultimately show ?thesis
    using sq unfolding square_def set_true_def by auto
next
  case False
  assume "square n m"
  with False show ?thesis by (simp add: set_true_def list_update_beyond)
qed

lemma square_in_range: "square n m \<Longrightarrow> unat a < n \<Longrightarrow> unat b < n \<Longrightarrow> in_range m a b"
  unfolding square_def in_range_def by auto

lemma square_shape: "map length m' = map length m \<Longrightarrow> square n m' = square n m"
proof -
  assume eq: "map length m' = map length m"
  let ?P = "\<lambda>ls :: nat list. length ls = n \<and> (\<forall>l \<in> set ls. l = n)"
  have sq: "square n x = ?P (map length x)" for x :: "bool list list"
    by (auto simp: square_def)
  have "square n m' = ?P (map length m')" by (rule sq)
  also have "\<dots> = ?P (map length m)" by (simp only: eq)
  also have "\<dots> = square n m" by (rule sq [symmetric])
  finally show ?thesis .
qed

lemma nth_set_true:
  assumes "in_range m a b"
  shows "set_true m a b ! unat x ! unat y = (if x = a \<and> y = b then True else m ! unat x ! unat y)"
proof (cases "x = a")
  case True
  then have row: "set_true m a b ! unat x = (m ! unat a)[unat b := True]"
    using assms by (simp add: set_true_def in_range_def)
  show ?thesis
  proof (cases "y = b")
    case True
    with row assms \<open>x = a\<close> show ?thesis by (simp add: in_range_def)
  next
    case False
    then have "unat b \<noteq> unat y" by (simp add: word_unat_eq_iff)
    with row \<open>x = a\<close> False show ?thesis by simp
  qed
next
  case False
  then have "unat a \<noteq> unat x" by (simp add: word_unat_eq_iff)
  with False show ?thesis by (simp add: set_true_def)
qed

lemma set_true_id:
  assumes "in_range m a b" and "m ! unat a ! unat b"
  shows "set_true m a b = m"
proof -
  from assms(2) have "(m ! unat a)[unat b := True] = (m ! unat a)[unat b := m ! unat a ! unat b]"
    by simp
  also have "\<dots> = m ! unat a" by (rule list_update_id)
  finally show ?thesis by (simp add: set_true_def)
qed

lemma in_range_shape: "map length m' = map length m \<Longrightarrow> in_range m' a b = in_range m a b"
proof -
  assume eq: "map length m' = map length m"
  then have len: "length m' = length m" by (rule map_eq_imp_length_eq)
  have "length (m' ! unat a) = length (m ! unat a)" if "unat a < length m"
    using that eq len by (metis nth_map)
  with len show ?thesis by (auto simp: in_range_def)
qed

lemma shape_set_true: "map length (set_true m a b) = map length m"
proof -
  have "map length (set_true m a b) = (map length m)[unat a := length (m ! unat a)]"
    by (simp add: set_true_def map_update)
  also have "\<dots> = map length m"
  proof (cases "unat a < length m")
    case True
    then have "length (m ! unat a) = map length m ! unat a" by simp
    then show ?thesis by (simp only: list_update_id)
  next
    case False
    then show ?thesis by (simp add: list_update_beyond)
  qed
  finally show ?thesis .
qed

lemma replicate_numeral: "replicate (numeral k) x = x # replicate (pred_numeral k) x"
  by (simp add: numeral_eq_Suc)

lemma list_update_numeral: "(x # xs)[numeral k := y] = x # xs[pred_numeral k := y]"
  by (simp add: numeral_eq_Suc)

lemma unat_succ:
  assumes "(i :: Type) < n"
  shows "unat (i + 1) = unat i + 1"
proof -
  from assms have "unat i < unat n" by (simp add: word_less_nat_alt)
  moreover have "unat n < 2 ^ LENGTH(16)" by (rule unsigned_less)
  ultimately have "unat i + unat (1 :: Type) < 2 ^ LENGTH(16)" by simp
  then have "unat (i + 1) = unat i + unat (1 :: Type)" by (simp only: unat_add_lem)
  then show ?thesis by simp
qed

lemma unat_succ_grows:
  fixes n :: Type
  assumes "unat n < unat (n + 1)"
  shows "unat (n + 1) = unat n + 1"
proof (cases "unat n + unat (1 :: Type) < 2 ^ LENGTH(16)")
  case True
  then have "unat (n + 1) = unat n + unat (1 :: Type)" by (simp only: unat_add_lem)
  then show ?thesis by simp
next
  case False
  have "unat n < 2 ^ LENGTH(16)" by (rule unsigned_less)
  with False have "unat n + 1 = 2 ^ LENGTH(16)" by simp
  then have "unat (n + 1) = 0" by (simp add: unat_word_ariths)
  with assms show ?thesis by simp
qed

lemma unat_succ_not_max:
  fixes n :: Type
  assumes "n \<noteq> - 1"
  shows "unat (n + 1) = unat n + 1"
proof -
  have "n + 1 \<noteq> 0"
  proof
    assume "n + 1 = 0"
    then have "n = - 1" by (simp add: eq_neg_iff_add_eq_0)
    with assms show False by simp
  qed
  then have "unat (1 + n) = Suc (unat n)" by (intro unatSuc) (simp add: add.commute)
  then show ?thesis by (simp add: add.commute)
qed

lemma word_less_succ:
  fixes n :: Type
  assumes "unat (n + 1) = unat n + 1"
  shows "t < n + 1 \<longleftrightarrow> t < n \<or> t = n"
proof -
  have "t < n + 1 \<longleftrightarrow> unat t < unat n + 1" by (simp add: word_less_nat_alt assms)
  also have "\<dots> \<longleftrightarrow> unat t < unat n \<or> unat t = unat n" by auto
  also have "\<dots> \<longleftrightarrow> t < n \<or> t = n" by (simp add: word_less_nat_alt word_unat_eq_iff)
  finally show ?thesis .
qed


lemma word_less_2: "w < 2 \<Longrightarrow> w = 0 \<or> w = 1" for w :: Type
proof -
  assume "w < 2"
  then have "unat w < 2" by (simp add: word_less_nat_alt)
  then have "unat w = 0 \<or> unat w = 1" by auto
  then show ?thesis by (auto simp: word_unat_eq_iff)
qed

lemma word_less_3: "w < 3 \<Longrightarrow> w = 0 \<or> w = 1 \<or> w = 2" for w :: Type
proof -
  assume "w < 3"
  then have "unat w < 3" by (simp add: word_less_nat_alt)
  then have "unat w = 0 \<or> unat w = 1 \<or> unat w = 2" by auto
  then show ?thesis by (auto simp: word_unat_eq_iff)
qed

lemma acyclic_less: "r \<subseteq> {(i, p). i < p} \<Longrightarrow> acyclic r" for r :: "(Type \<times> Type) set"
proof -
  assume sub: "r \<subseteq> {(i, p). i < p}"
  have "wf (measure (unat :: Type \<Rightarrow> nat))" by simp
  moreover have "r \<subseteq> measure (unat :: Type \<Rightarrow> nat)"
    using sub by (auto simp: word_less_nat_alt)
  ultimately have "wf r" by (rule wf_subset)
  then show ?thesis by (rule wf_acyclic)
qed

section \<open>The loop of closure propagation\<close>

text \<open>
  The loop in terms of the function it belongs to: the body of an iteration is the call
  \<^verbatim>\<open>setParentRecursively(i, type)\<close>.
\<close>

lemma setParentRecursively_loop_unfold:
  "setParentRecursively_loop i parent type s =
    (if i < nTypes s then
       (if \<not> in_range (recursiveMap s) i parent then Some (Inl OutOfBounds)
        else if recursiveMap s ! unat i ! unat parent \<and> i \<noteq> parent then
          Option.bind (setParentRecursively i type s)
            (\<lambda>r. case r of
                   Inl e \<Rightarrow> Some (Inl e)
                 | Inr s' \<Rightarrow> setParentRecursively_loop (i + 1) parent type s')
        else setParentRecursively_loop (i + 1) parent type s)
     else Some (Inr s))"
  by (subst setParentRecursively_loop.simps) (simp add: setParentRecursively_def)

text \<open>
  The cases of a run of the loop that returns \<open>r\<close>, as an induction rule: a property that
  holds of each way the loop can end, given that it holds of the runs inside, holds of the
  run.
\<close>

lemma spr_loop_cases [consumes 1, case_names exit oob_read skip oob_write call_err call_ok]:
  assumes run: "setParentRecursively_loop i parent type s = Some r"
    and exit: "\<And>i parent type s. \<not> i < nTypes s \<Longrightarrow> P i parent type s (Inr s)"
    and oob_read: "\<And>i parent type s. i < nTypes s \<Longrightarrow> \<not> in_range (recursiveMap s) i parent
          \<Longrightarrow> P i parent type s (Inl OutOfBounds)"
    and skip: "\<And>i parent type s r. i < nTypes s \<Longrightarrow> in_range (recursiveMap s) i parent
          \<Longrightarrow> \<not> (recursiveMap s ! unat i ! unat parent \<and> i \<noteq> parent)
          \<Longrightarrow> P (i + 1) parent type s r \<Longrightarrow> P i parent type s r"
    and oob_write: "\<And>i parent type s. i < nTypes s \<Longrightarrow> in_range (recursiveMap s) i parent
          \<Longrightarrow> recursiveMap s ! unat i ! unat parent \<Longrightarrow> i \<noteq> parent
          \<Longrightarrow> \<not> in_range (recursiveMap s) i type \<Longrightarrow> P i parent type s (Inl OutOfBounds)"
    and call_err: "\<And>i parent type s e. i < nTypes s \<Longrightarrow> in_range (recursiveMap s) i parent
          \<Longrightarrow> recursiveMap s ! unat i ! unat parent \<Longrightarrow> i \<noteq> parent
          \<Longrightarrow> in_range (recursiveMap s) i type
          \<Longrightarrow> P 0 i type (s\<lparr>recursiveMap := set_true (recursiveMap s) i type\<rparr>) (Inl e)
          \<Longrightarrow> P i parent type s (Inl e)"
    and call_ok: "\<And>i parent type s s1 r. i < nTypes s \<Longrightarrow> in_range (recursiveMap s) i parent
          \<Longrightarrow> recursiveMap s ! unat i ! unat parent \<Longrightarrow> i \<noteq> parent
          \<Longrightarrow> in_range (recursiveMap s) i type
          \<Longrightarrow> P 0 i type (s\<lparr>recursiveMap := set_true (recursiveMap s) i type\<rparr>) (Inr s1)
          \<Longrightarrow> P (i + 1) parent type s1 r
          \<Longrightarrow> P i parent type s r"
  shows "P i parent type s r"
proof (rule setParentRecursively_loop.raw_induct [where P = P, OF _ run])
  fix f i parent type s r
  assume IH: "\<And>i parent type s r. f i parent type s = Some r \<Longrightarrow> P i parent type s r"
    and body: "(if i < nTypes s then
       (if \<not> in_range (recursiveMap s) i parent then Some (Inl OutOfBounds)
        else if recursiveMap s ! unat i ! unat parent \<and> i \<noteq> parent then
          (if \<not> in_range (recursiveMap s) i type then Some (Inl OutOfBounds)
           else
             Option.bind
               (f 0 i type
                  (s\<lparr>recursiveMap := set_true (recursiveMap s) i type\<rparr>))
               (\<lambda>r. case r of
                      Inl e \<Rightarrow> Some (Inl e)
                    | Inr s' \<Rightarrow> f (i + 1) parent type s'))
        else f (i + 1) parent type s)
     else Some (Inr s)) = Some r"
  show "P i parent type s r"
  proof (cases "i < nTypes s")
    case False
    with body have "r = Inr s" by simp
    with False show ?thesis by (simp add: exit)
  next
    case lt: True
    show ?thesis
    proof (cases "in_range (recursiveMap s) i parent")
      case False
      with lt body have "r = Inl OutOfBounds" by simp
      with lt False show ?thesis by (simp add: oob_read)
    next
      case rd: True
      show ?thesis
      proof (cases "recursiveMap s ! unat i ! unat parent \<and> i \<noteq> parent")
        case False
        with lt rd body have "f (i + 1) parent type s = Some r"
          by (simp split: if_splits)
        from skip [OF lt rd False IH [OF this]] show ?thesis .
      next
        case True
        then have cell: "recursiveMap s ! unat i ! unat parent" and ne: "i \<noteq> parent"
          by simp_all
        show ?thesis
        proof (cases "in_range (recursiveMap s) i type")
          case False
          with lt rd True body have "r = Inl OutOfBounds" by simp
          with oob_write [OF lt rd cell ne False] show ?thesis by simp
        next
          case wr: True
          from lt rd True wr body have b: "Option.bind
               (f 0 i type (s\<lparr>recursiveMap := set_true (recursiveMap s) i type\<rparr>))
               (\<lambda>r. case r of Inl e \<Rightarrow> Some (Inl e)
                    | Inr s' \<Rightarrow> f (i + 1) parent type s') = Some r"
            by simp
          then obtain r1 where
            r1: "f 0 i type (s\<lparr>recursiveMap := set_true (recursiveMap s) i type\<rparr>) = Some r1"
            and k: "(case r1 of Inl e \<Rightarrow> Some (Inl e) | Inr s' \<Rightarrow> f (i + 1) parent type s') = Some r"
            by (auto split: Option.bind_splits)
          show ?thesis
          proof (cases r1)
            case (Inl e)
            with k have "r = Inl e" by simp
            with call_err [OF lt rd cell ne wr] IH [OF r1] Inl show ?thesis by simp
          next
            case (Inr s1)
            with k have "f (i + 1) parent type s1 = Some r" by simp
            from call_ok [OF lt rd cell ne wr _ IH [OF this]] IH [OF r1] Inr
            show ?thesis by simp
          qed
        qed
      qed
    qed
  qed
qed

lemma spr_loop_frame:
  assumes "setParentRecursively_loop i parent type s = Some r"
  shows "\<forall>s'. r = Inr s' \<longrightarrow> (\<exists>rm. s' = s\<lparr>recursiveMap := rm\<rparr>)"
  using assms
proof (induction rule: spr_loop_cases)
  case (exit i parent type s)
  have "s = s\<lparr>recursiveMap := recursiveMap s\<rparr>" by simp
  then show ?case by blast
next
  case (call_ok i parent type s s1 r)
  then show ?case by fastforce
qed simp_all

lemma spr_loop_safe:
  assumes "setParentRecursively_loop i parent type s = Some r"
  shows "square (unat (nTypes s)) (recursiveMap s) \<and> parent < nTypes s \<and> type < nTypes s
     \<longrightarrow> (\<exists>rm. r = Inr (s\<lparr>recursiveMap := rm\<rparr>) \<and> square (unat (nTypes s)) rm)"
  using assms
proof (induction rule: spr_loop_cases)
  case (exit i parent type s)
  have "s = s\<lparr>recursiveMap := recursiveMap s\<rparr>" by simp
  then show ?case by metis
next
  case (oob_read i parent type s)
  then show ?case by (auto simp: word_less_nat_alt dest: square_in_range)
next
  case (skip i parent type s r)
  then show ?case by simp
next
  case (oob_write i parent type s)
  then show ?case by (auto simp: word_less_nat_alt dest: square_in_range)
next
  case (call_err i parent type s e)
  then show ?case by (auto simp: square_set_true)
next
  case (call_ok i parent type s s1 r)
  show ?case
  proof (intro impI)
    assume a: "square (unat (nTypes s)) (recursiveMap s) \<and> parent < nTypes s \<and> type < nTypes s"
    with call_ok(1,6) obtain rm1 where
      s1: "s1 = s\<lparr>recursiveMap := rm1\<rparr>" and sq1: "square (unat (nTypes s)) rm1"
      by (auto simp: square_set_true)
    with call_ok(7) a obtain rm2 where
      "r = Inr (s1\<lparr>recursiveMap := rm2\<rparr>)" and "square (unat (nTypes s)) rm2"
      by auto
    with s1 show "\<exists>rm. r = Inr (s\<lparr>recursiveMap := rm\<rparr>) \<and> square (unat (nTypes s)) rm"
      by auto
  qed
qed

lemma setParentRecursively_frame:
  assumes "setParentRecursively p t s = Some (Inr s')"
  shows "\<exists>rm. s' = s\<lparr>recursiveMap := rm\<rparr>"
proof -
  from assms have "setParentRecursively_loop 0 p t (s\<lparr>recursiveMap := set_true (recursiveMap s) p t\<rparr>) = Some (Inr s')"
    by (simp add: setParentRecursively_def split: if_splits)
  from spr_loop_frame [OF this] obtain rm where
    "s' = s\<lparr>recursiveMap := set_true (recursiveMap s) p t, recursiveMap := rm\<rparr>"
    by auto
  then have "s' = s\<lparr>recursiveMap := rm\<rparr>" by simp
  then show ?thesis ..
qed

lemma setParentRecursively_safe:
  assumes sq: "square (unat (nTypes s)) (recursiveMap s)"
    and p: "parent < nTypes s" and t: "type < nTypes s"
  shows "setParentRecursively parent type s \<noteq> Some (Inl e)"
proof
  assume err: "setParentRecursively parent type s = Some (Inl e)"
  let ?sa = "s\<lparr>recursiveMap := set_true (recursiveMap s) parent type\<rparr>"
  from sq p t have wr: "in_range (recursiveMap s) parent type"
    by (auto simp: word_less_nat_alt intro: square_in_range)
  with err have "setParentRecursively_loop 0 parent type ?sa = Some (Inl e)"
    by (simp add: setParentRecursively_def)
  from spr_loop_safe [OF this] sq p t show False
    by (simp add: square_set_true)
qed

subsection \<open>Termination on a well-founded relation\<close>

lemma anc_rel_irrefl: "(a, a) \<notin> anc_rel s"
  by (simp add: anc_rel_def)

lemma anc_rel_set_true:
  assumes "in_range (recursiveMap s) a b"
  shows "anc_rel (s\<lparr>recursiveMap := set_true (recursiveMap s) a b\<rparr>) \<subseteq> insert (a, b) (anc_rel s)"
  using assms by (auto simp: anc_rel_def nth_set_true)

lemma loop_terminates:
  assumes "wf W" and "trans W"
  shows "square (unat (nTypes s)) (recursiveMap s) \<Longrightarrow> parent < nTypes s \<Longrightarrow> type < nTypes s
    \<Longrightarrow> anc_rel s \<subseteq> W \<Longrightarrow> (parent, type) \<in> W \<or> parent = type
    \<Longrightarrow> \<exists>rm. setParentRecursively_loop i parent type s = Some (Inr (s\<lparr>recursiveMap := rm\<rparr>))
           \<and> square (unat (nTypes s)) rm \<and> anc_rel (s\<lparr>recursiveMap := rm\<rparr>) \<subseteq> W"
  using \<open>wf W\<close>
proof (induction parent arbitrary: type i s rule: wf_induct_rule)
  case (less parent)
  note outer = less.IH
  from less.prems show ?case
  proof (induction "unat (nTypes s) - unat i" arbitrary: i s rule: less_induct)
    case inner: less
    let ?n = "unat (nTypes s)"
    show ?case
    proof (cases "i < nTypes s")
      case False
      then have "setParentRecursively_loop i parent type s = Some (Inr (s\<lparr>recursiveMap := recursiveMap s\<rparr>))"
        by (subst setParentRecursively_loop.simps) simp
      with inner.prems show ?thesis by (intro exI [of _ "recursiveMap s"]) simp
    next
      case lt: True
      then have suc: "unat (i + 1) = unat i + 1"
        by (rule unat_succ)
      have dec: "?n - unat (i + 1) < ?n - unat i"
        using lt suc by (simp add: word_less_nat_alt)
      have rd: "in_range (recursiveMap s) i parent"
        using inner.prems lt by (auto simp: word_less_nat_alt intro: square_in_range)
      have wr: "in_range (recursiveMap s) i type"
        using inner.prems lt by (auto simp: word_less_nat_alt intro: square_in_range)
      show ?thesis
      proof (cases "recursiveMap s ! unat i ! unat parent \<and> i \<noteq> parent")
        case False
        from inner.hyps [OF dec] inner.prems obtain rm where
          r: "setParentRecursively_loop (i + 1) parent type s = Some (Inr (s\<lparr>recursiveMap := rm\<rparr>))"
          and p: "square ?n rm" "anc_rel (s\<lparr>recursiveMap := rm\<rparr>) \<subseteq> W"
          by blast
        have "setParentRecursively_loop i parent type s = Some (Inr (s\<lparr>recursiveMap := rm\<rparr>))"
          using lt rd False r by (subst setParentRecursively_loop.simps) auto
        with p show ?thesis by blast
      next
        case True
        let ?sa = "s\<lparr>recursiveMap := set_true (recursiveMap s) i type\<rparr>"
        from True lt inner.prems have edge: "(i, parent) \<in> W"
          by (auto simp: anc_rel_def)
        with inner.prems \<open>trans W\<close> have it: "(i, type) \<in> W"
          by (auto dest: transD)
        have "anc_rel ?sa \<subseteq> W"
          using anc_rel_set_true [OF wr] it inner.prems by auto
        from outer [OF edge, of ?sa type 0] this it lt inner.prems obtain rm1 where
          r1: "setParentRecursively_loop 0 i type ?sa = Some (Inr (s\<lparr>recursiveMap := rm1\<rparr>))"
          and p1: "square ?n rm1" "anc_rel (s\<lparr>recursiveMap := rm1\<rparr>) \<subseteq> W"
          by (auto simp: square_set_true)
        let ?s1 = "s\<lparr>recursiveMap := rm1\<rparr>"
        from inner.hyps [of ?s1 "i + 1"] dec p1 inner.prems obtain rm2 where
          r2: "setParentRecursively_loop (i + 1) parent type ?s1 = Some (Inr (s\<lparr>recursiveMap := rm2\<rparr>))"
          and p2: "square ?n rm2" "anc_rel (s\<lparr>recursiveMap := rm2\<rparr>) \<subseteq> W"
          by auto
        have "setParentRecursively_loop i parent type s = Some (Inr (s\<lparr>recursiveMap := rm2\<rparr>))"
          using lt rd wr True r1 r2 by (subst setParentRecursively_loop.simps) simp
        with p2 show ?thesis by blast
      qed
    qed
  qed
qed

subsection \<open>What a run that returns has marked\<close>

lemma extends_refl: "extends t m m"
  by (simp add: extends_def)

lemma extends_trans: "extends t m m' \<Longrightarrow> extends t m' m'' \<Longrightarrow> extends t m m''"
  by (simp add: extends_def)

lemma extends_set_true: "in_range m a t \<Longrightarrow> extends t m (set_true m a t)"
  by (simp add: extends_def shape_set_true nth_set_true)

lemma extends_shape: "extends t m m' \<Longrightarrow> map length m' = map length m"
  unfolding extends_def by blast

lemma extends_mono: "extends t m m' \<Longrightarrow> m ! unat a ! unat b \<Longrightarrow> m' ! unat a ! unat b"
  for a b :: Type
  unfolding extends_def by blast

lemma extends_col: "extends t m m' \<Longrightarrow> b \<noteq> t \<Longrightarrow> m' ! unat a ! unat b = m ! unat a ! unat b"
  for a b :: Type
  unfolding extends_def by blast

lemma marked_run:
  assumes "marked p t s"
  shows "setParentRecursively_loop i p t s = Some (Inr s)"
  using assms
proof (induction p t s arbitrary: i rule: marked.induct)
  case (markedI s p t)
  show ?case
  proof (induction "unat (nTypes s) - unat i" arbitrary: i rule: less_induct)
    case less
    show ?case
    proof (cases "i < nTypes s")
      case False
      then show ?thesis by (subst setParentRecursively_loop.simps) simp
    next
      case lt: True
      have dec: "unat (nTypes s) - unat (i + 1) < unat (nTypes s) - unat i"
        using lt unat_succ [OF lt] by (simp add: word_less_nat_alt)
      note nxt = less.hyps [OF dec]
      have rd: "in_range (recursiveMap s) i p" using markedI.hyps(3) lt by simp
      show ?thesis
      proof (cases "recursiveMap s ! unat i ! unat p \<and> i \<noteq> p")
        case False
        with lt rd nxt show ?thesis by (subst setParentRecursively_loop.simps) auto
      next
        case True
        with markedI.hyps(4) markedI.IH lt have m: "marked i t s"
          and run: "setParentRecursively_loop 0 i t s = Some (Inr s)"
          by simp_all
        from m have wr: "in_range (recursiveMap s) i t" and cell: "recursiveMap s ! unat i ! unat t"
          by (auto elim: marked.cases)
        then have "s\<lparr>recursiveMap := set_true (recursiveMap s) i t\<rparr> = s"
          by (simp add: set_true_id)
        with lt rd wr True run nxt show ?thesis
          by (subst setParentRecursively_loop.simps) simp
      qed
    qed
  qed
qed

lemma marked_lift:
  assumes "marked q t s"
    and "extends t (recursiveMap s) rm'"
    and "\<And>k. rm' ! unat k ! unat t \<Longrightarrow> \<not> recursiveMap s ! unat k ! unat t
           \<Longrightarrow> marked k t (s\<lparr>recursiveMap := rm'\<rparr>)"
  shows "marked q t (s\<lparr>recursiveMap := rm'\<rparr>)"
  using assms
proof (induction q t s rule: marked.induct)
  case (markedI s p t)
  let ?s' = "s\<lparr>recursiveMap := rm'\<rparr>"
  from markedI.prems(1) have shape: "map length rm' = map length (recursiveMap s)"
    and mono: "\<And>(a :: Type) (b :: Type). recursiveMap s ! unat a ! unat b \<Longrightarrow> rm' ! unat a ! unat b"
    and col: "\<And>(a :: Type) (b :: Type). b \<noteq> t \<Longrightarrow> rm' ! unat a ! unat b = recursiveMap s ! unat a ! unat b"
    by (auto intro: extends_shape extends_mono simp: extends_col)
  show ?case
  proof (rule marked.intros)
    show "in_range (recursiveMap ?s') p t"
      using markedI.hyps(1) by (simp add: in_range_shape [OF shape])
    show "recursiveMap ?s' ! unat p ! unat t"
      using markedI.hyps(2) mono by simp
    show "in_range (recursiveMap ?s') j p" if "j < nTypes ?s'" for j
      using that markedI.hyps(3) by (simp add: in_range_shape [OF shape])
    show "marked j t ?s'"
      if "j < nTypes ?s'" and "recursiveMap ?s' ! unat j ! unat p" and "j \<noteq> p" for j
    proof (cases "recursiveMap s ! unat j ! unat p")
      case True
      from that have "j < nTypes s" by simp
      from this True \<open>j \<noteq> p\<close> markedI.prems(1) markedI.prems(2) show ?thesis
        by (rule markedI.IH)
    next
      case False
      with that(2) col [of p j] have "p = t" by auto
      from that(2) False have "rm' ! unat j ! unat t" and "\<not> recursiveMap s ! unat j ! unat t"
        unfolding \<open>p = t\<close> by simp_all
      then show ?thesis by (rule markedI.prems(2))
    qed
  qed
qed

lemma marked_fields:
  assumes "marked p t s" and "recursiveMap s' = recursiveMap s" and "nTypes s' = nTypes s"
  shows "marked p t s'"
  using assms
proof (induction p t s rule: marked.induct)
  case (markedI s p t)
  show ?case
  proof (rule marked.intros)
    show "in_range (recursiveMap s') p t" using markedI.hyps(1) markedI.prems by simp
    show "recursiveMap s' ! unat p ! unat t" using markedI.hyps(2) markedI.prems by simp
    show "in_range (recursiveMap s') j p" if "j < nTypes s'" for j
      using that markedI.hyps(3) markedI.prems by simp
    show "marked j t s'"
      if "j < nTypes s'" and "recursiveMap s' ! unat j ! unat p" and "j \<noteq> p" for j
    proof -
      from that markedI.prems have "j < nTypes s" and "recursiveMap s ! unat j ! unat p"
        by simp_all
      from this \<open>j \<noteq> p\<close> markedI.prems show ?thesis by (rule markedI.IH)
    qed
  qed
qed

lemma visit_post_marked:
  assumes wr: "in_range (recursiveMap s) p t"
    and post: "visit_post 0 p t (s\<lparr>recursiveMap := set_true (recursiveMap s) p t\<rparr>) s'"
  shows "marked p t s'"
proof -
  let ?m = "set_true (recursiveMap s) p t"
  from post obtain rm' where s': "s' = s\<lparr>recursiveMap := rm'\<rparr>"
    and ext: "extends t ?m rm'"
    and new: "\<And>q. rm' ! unat q ! unat t \<Longrightarrow> \<not> ?m ! unat q ! unat t \<Longrightarrow> marked q t s'"
    and anc: "\<And>j. j < nTypes s \<Longrightarrow> j \<noteq> p \<Longrightarrow> ?m ! unat j ! unat p \<Longrightarrow> marked j t s'"
    and rng: "\<And>j. j < nTypes s \<Longrightarrow> in_range ?m j p"
    by (auto simp: visit_post_def)
  have shape: "map length rm' = map length (recursiveMap s)"
    using extends_shape [OF ext] by (simp add: shape_set_true)
  show ?thesis
  proof (rule marked.intros)
    show "in_range (recursiveMap s') p t"
      using wr by (simp add: s' in_range_shape [OF shape])
    have "?m ! unat p ! unat t" by (simp add: nth_set_true [OF wr])
    then show "recursiveMap s' ! unat p ! unat t"
      using extends_mono [OF ext] by (simp add: s')
    show "in_range (recursiveMap s') j p" if "j < nTypes s'" for j
      using rng [of j] that
      by (simp add: s' in_range_shape [OF shape] in_range_shape [OF shape_set_true])
    show "marked j t s'"
      if "j < nTypes s'" and "recursiveMap s' ! unat j ! unat p" and "j \<noteq> p" for j
    proof (cases "?m ! unat j ! unat p")
      case True
      with anc [of j] that show ?thesis by (simp add: s')
    next
      case False
      with that(2) extends_col [OF ext, of p j] have "p = t" by (auto simp: s')
      with that(2) False new [of j] show ?thesis by (simp add: s')
    qed
  qed
qed

lemma spr_loop_post:
  assumes "setParentRecursively_loop i p t s = Some r"
  shows "\<forall>s'. r = Inr s' \<longrightarrow> visit_post i p t s s'"
  using assms
proof (induction rule: spr_loop_cases)
  case (exit i parent type s)
  have "s = s\<lparr>recursiveMap := recursiveMap s\<rparr>" by simp
  with exit show ?case
    unfolding visit_post_def by (auto intro!: exI [of _ "recursiveMap s"] simp: extends_refl)
next
  case (oob_read i parent type s)
  then show ?case by simp
next
  case (skip i parent type s r)
  show ?case
  proof (intro allI impI)
    fix s' assume "r = Inr s'"
    with skip(4) obtain rm' where s': "s' = s\<lparr>recursiveMap := rm'\<rparr>"
      and ext: "extends type (recursiveMap s) rm'"
      and new: "\<forall>q. rm' ! unat q ! unat type \<and> \<not> recursiveMap s ! unat q ! unat type \<longrightarrow> marked q type s'"
      and anc: "\<forall>j. i + 1 \<le> j \<and> j < nTypes s \<and> j \<noteq> parent \<and> recursiveMap s ! unat j ! unat parent \<longrightarrow> marked j type s'"
      and rng: "\<forall>j. i + 1 \<le> j \<and> j < nTypes s \<longrightarrow> in_range (recursiveMap s) j parent"
      unfolding visit_post_def by blast
    have nxt: "i + 1 \<le> j" if "i \<le> j" and "j \<noteq> i" for j
      using that by (simp add: inc_le)
    have "\<forall>j. i \<le> j \<and> j < nTypes s \<and> j \<noteq> parent \<and> recursiveMap s ! unat j ! unat parent \<longrightarrow> marked j type s'"
      using anc skip(3) nxt by blast
    moreover have "\<forall>j. i \<le> j \<and> j < nTypes s \<longrightarrow> in_range (recursiveMap s) j parent"
      using rng skip(2) nxt by blast
    ultimately show "visit_post i parent type s s'"
      unfolding visit_post_def using s' ext new by blast
  qed
next
  case (oob_write i parent type s)
  then show ?case by simp
next
  case (call_err i parent type s e)
  then show ?case by simp
next
  case (call_ok i parent type s s1 r)
  let ?m = "set_true (recursiveMap s) i type"
  let ?sa = "s\<lparr>recursiveMap := ?m\<rparr>"
  from call_ok(6) have post1: "visit_post 0 i type ?sa s1" by simp
  have mi: "marked i type s1"
    using call_ok(5) post1 by (rule visit_post_marked)
  from post1 obtain rm1 where s1: "s1 = s\<lparr>recursiveMap := rm1\<rparr>"
    and ext1: "extends type ?m rm1"
    and new1: "\<forall>q. rm1 ! unat q ! unat type \<and> \<not> ?m ! unat q ! unat type \<longrightarrow> marked q type s1"
    unfolding visit_post_def by auto
  have ext01: "extends type (recursiveMap s) rm1"
    using extends_set_true [OF call_ok(5)] ext1 by (rule extends_trans)
  show ?case
  proof (intro allI impI)
    fix s' assume "r = Inr s'"
    with call_ok(7) obtain rm2 where s': "s' = s\<lparr>recursiveMap := rm2\<rparr>"
      and ext2: "extends type rm1 rm2"
      and new2: "\<forall>q. rm2 ! unat q ! unat type \<and> \<not> rm1 ! unat q ! unat type \<longrightarrow> marked q type s'"
      and anc2: "\<forall>j. i + 1 \<le> j \<and> j < nTypes s \<and> j \<noteq> parent \<and> rm1 ! unat j ! unat parent \<longrightarrow> marked j type s'"
      and rng2: "\<forall>j. i + 1 \<le> j \<and> j < nTypes s \<longrightarrow> in_range rm1 j parent"
      unfolding visit_post_def s1 by auto
    have lift: "marked q type s'" if "marked q type s1" for q
    proof -
      have "marked q type (s1\<lparr>recursiveMap := rm2\<rparr>)"
        using that
      proof (rule marked_lift)
        show "extends type (recursiveMap s1) rm2" using ext2 by (simp add: s1)
        show "marked k type (s1\<lparr>recursiveMap := rm2\<rparr>)"
          if "rm2 ! unat k ! unat type" and "\<not> recursiveMap s1 ! unat k ! unat type" for k
          using that new2 by (simp add: s1 s')
      qed
      then show ?thesis by (simp add: s1 s')
    qed
    have nxt: "i + 1 \<le> j" if "i \<le> j" and "j \<noteq> i" for j
      using that by (simp add: inc_le)
    have ext02: "extends type (recursiveMap s) rm2"
      using ext01 ext2 by (rule extends_trans)
    have new: "marked q type s'"
      if "rm2 ! unat q ! unat type" and "\<not> recursiveMap s ! unat q ! unat type" for q
    proof (cases "rm1 ! unat q ! unat type")
      case False
      with that new2 show ?thesis by blast
    next
      case True
      show ?thesis
      proof (cases "?m ! unat q ! unat type")
        case False
        with True new1 have "marked q type s1" by blast
        then show ?thesis by (rule lift)
      next
        case True
        with that(2) have "q = i"
          by (simp add: nth_set_true [OF call_ok(5)] split: if_splits)
        with mi show ?thesis by (simp add: lift)
      qed
    qed
    have anc: "marked j type s'"
      if "i \<le> j" and "j < nTypes s" and "j \<noteq> parent" and "recursiveMap s ! unat j ! unat parent" for j
    proof (cases "j = i")
      case True
      with mi show ?thesis by (simp add: lift)
    next
      case False
      from that(4) have "rm1 ! unat j ! unat parent"
        by (rule extends_mono [OF ext01])
      with anc2 nxt [OF that(1) False] that show ?thesis by blast
    qed
    have rng: "in_range (recursiveMap s) j parent" if "i \<le> j" and "j < nTypes s" for j
    proof (cases "j = i")
      case True
      with call_ok(2) show ?thesis by simp
    next
      case False
      with rng2 nxt [OF that(1) False] that have "in_range rm1 j parent" by blast
      then show ?thesis by (simp add: in_range_shape [OF extends_shape [OF ext01]])
    qed
    show "visit_post i parent type s s'"
      unfolding visit_post_def using s' ext02 new anc rng by blast
  qed
qed

lemma setParentRecursively_marked:
  assumes "setParentRecursively p t s = Some (Inr s')"
  shows "marked p t s'"
proof -
  from assms have wr: "in_range (recursiveMap s) p t"
    and run: "setParentRecursively_loop 0 p t (s\<lparr>recursiveMap := set_true (recursiveMap s) p t\<rparr>) = Some (Inr s')"
    by (auto simp: setParentRecursively_def split: if_splits)
  from spr_loop_post [OF run] have "visit_post 0 p t (s\<lparr>recursiveMap := set_true (recursiveMap s) p t\<rparr>) s'"
    by simp
  with wr show ?thesis by (rule visit_post_marked)
qed

lemma marked_setParentRecursively:
  assumes m: "marked p t s"
  shows "setParentRecursively p t s = Some (Inr s)"
proof -
  from m have wr: "in_range (recursiveMap s) p t" and cell: "recursiveMap s ! unat p ! unat t"
    by (auto elim: marked.cases)
  then have "s\<lparr>recursiveMap := set_true (recursiveMap s) p t\<rparr> = s"
    by (simp add: set_true_id)
  with wr marked_run [OF m, of 0] show ?thesis
    by (simp add: setParentRecursively_def)
qed

lemma setParentRecursively_idem:
  assumes "setParentRecursively p t s = Some (Inr s')"
  shows "setParentRecursively p t s' = Some (Inr s')"
  using setParentRecursively_marked [OF assms] by (rule marked_setParentRecursively)

lemma setParentRecursively_shape:
  assumes "setParentRecursively p t s = Some (Inr s')"
  shows "map length (recursiveMap s') = map length (recursiveMap s)"
proof -
  let ?m = "set_true (recursiveMap s) p t"
  from assms have "setParentRecursively_loop 0 p t (s\<lparr>recursiveMap := ?m\<rparr>) = Some (Inr s')"
    by (auto simp: setParentRecursively_def split: if_splits)
  from spr_loop_post [OF this] obtain rm' where "s' = s\<lparr>recursiveMap := rm'\<rparr>"
    and "extends t ?m rm'"
    by (auto simp: visit_post_def)
  with extends_shape [of t ?m rm'] show ?thesis by (simp add: shape_set_true)
qed

subsection \<open>Cells of the ancestor matrix lie on paths of direct edges\<close>

lemma direct_frame: "direct (s\<lparr>recursiveMap := rm\<rparr>) = direct s"
  by (simp add: direct_def isA_non_recursive_def)

lemma direct_iff:
  "(p, c) \<in> direct s \<longleftrightarrow>
     c < nTypes s \<and> p < nTypes s \<and> in_range (inheritanceMap s) p c
     \<and> inheritanceMap s ! unat p ! unat c"
  by (auto simp: direct_def isA_non_recursive_def)

lemma closure_sound_mono:
  assumes "closure_sound s" and "direct s \<subseteq> direct s'"
    and "nTypes s' = nTypes s" and "recursiveMap s' = recursiveMap s"
  shows "closure_sound s'"
  unfolding closure_sound_def
proof (intro allI impI)
  fix a b assume "a < nTypes s' \<and> b < nTypes s' \<and> recursiveMap s' ! unat a ! unat b"
  with assms have "(a, b) \<in> (direct s)\<^sup>*" by (simp add: closure_sound_def)
  with rtrancl_mono [OF assms(2)] show "(a, b) \<in> (direct s')\<^sup>*" by blast
qed

lemma spr_loop_sound:
  assumes "setParentRecursively_loop i parent type s = Some r"
  shows "\<forall>s'. r = Inr s' \<longrightarrow>
     (\<exists>rm. s' = s\<lparr>recursiveMap := rm\<rparr>)
     \<and> (closure_sound s \<and> parent < nTypes s \<and> type < nTypes s \<and> (parent, type) \<in> (direct s)\<^sup>*
          \<longrightarrow> closure_sound s')"
  using assms
proof (induction rule: spr_loop_cases)
  case (exit i parent type s)
  have "s = s\<lparr>recursiveMap := recursiveMap s\<rparr>" by simp
  then show ?case by blast
next
  case (call_ok i parent type s s1 r)
  let ?sa = "s\<lparr>recursiveMap := set_true (recursiveMap s) i type\<rparr>"
  from call_ok(6) obtain rm1 where s1: "s1 = s\<lparr>recursiveMap := rm1\<rparr>"
    and snd1: "closure_sound ?sa \<and> i < nTypes s \<and> type < nTypes s \<and> (i, type) \<in> (direct s)\<^sup>*
        \<longrightarrow> closure_sound s1"
    by (auto simp: direct_frame)
  show ?case
  proof (intro allI impI)
    fix s' assume r: "r = Inr s'"
    with call_ok(7) obtain rm2 where s': "s' = s\<lparr>recursiveMap := rm2\<rparr>"
      and snd2: "closure_sound s1 \<and> parent < nTypes s \<and> type < nTypes s \<and> (parent, type) \<in> (direct s)\<^sup>*
        \<longrightarrow> closure_sound s'"
      by (auto simp: s1 direct_frame)
    have "closure_sound s'"
      if pre: "closure_sound s \<and> parent < nTypes s \<and> type < nTypes s \<and> (parent, type) \<in> (direct s)\<^sup>*"
    proof -
      from pre call_ok(1,3) have "(i, parent) \<in> (direct s)\<^sup>*"
        by (simp add: closure_sound_def)
      with pre have it: "(i, type) \<in> (direct s)\<^sup>*" by auto
      have "closure_sound ?sa"
        unfolding closure_sound_def
      proof (intro allI impI)
        fix a b
        assume "a < nTypes ?sa \<and> b < nTypes ?sa \<and> recursiveMap ?sa ! unat a ! unat b"
        then have "a < nTypes s" "b < nTypes s"
          and "(a = i \<and> b = type) \<or> recursiveMap s ! unat a ! unat b"
          by (auto simp: nth_set_true [OF call_ok(5)] split: if_splits)
        with it pre show "(a, b) \<in> (direct ?sa)\<^sup>*"
          by (auto simp: direct_frame closure_sound_def)
      qed
      with snd1 call_ok(1) pre it have "closure_sound s1" by simp
      with snd2 pre show ?thesis by simp
    qed
    with s' show "(\<exists>rm. s' = s\<lparr>recursiveMap := rm\<rparr>)
       \<and> (closure_sound s \<and> parent < nTypes s \<and> type < nTypes s \<and> (parent, type) \<in> (direct s)\<^sup>*
          \<longrightarrow> closure_sound s')"
      by blast
  qed
qed simp_all

lemma setParentRecursively_sound:
  assumes run: "setParentRecursively parent type s = Some (Inr s')"
    and snd: "closure_sound s" and p: "parent < nTypes s" and t: "type < nTypes s"
    and edge: "(parent, type) \<in> (direct s)\<^sup>*"
  shows "closure_sound s'"
proof -
  let ?sa = "s\<lparr>recursiveMap := set_true (recursiveMap s) parent type\<rparr>"
  from run have wr: "in_range (recursiveMap s) parent type"
    and loop: "setParentRecursively_loop 0 parent type ?sa = Some (Inr s')"
    by (auto simp: setParentRecursively_def split: if_splits)
  have "closure_sound ?sa"
    unfolding closure_sound_def
  proof (intro allI impI)
    fix a b
    assume "a < nTypes ?sa \<and> b < nTypes ?sa \<and> recursiveMap ?sa ! unat a ! unat b"
    then have "a < nTypes s" "b < nTypes s"
      and "(a = parent \<and> b = type) \<or> recursiveMap s ! unat a ! unat b"
      by (auto simp: nth_set_true [OF wr] split: if_splits)
    with edge snd show "(a, b) \<in> (direct ?sa)\<^sup>*"
      by (auto simp: direct_frame closure_sound_def)
  qed
  with spr_loop_sound [OF loop] p t edge show ?thesis
    by (simp add: direct_frame)
qed

section \<open>The two branches of registration\<close>

lemma addType_existing:
  assumes "getType NOTYPE name s \<noteq> NOTYPE"
  shows "addType NOTYPE parent name s =
     (if \<not> in_range (inheritanceMap s) parent (getType NOTYPE name s) then Some (Inl OutOfBounds)
      else Option.bind
        (setParentRecursively parent (getType NOTYPE name s)
           (s\<lparr>inheritanceMap := set_true (inheritanceMap s) parent (getType NOTYPE name s)\<rparr>))
        (\<lambda>r. case r of Inl e \<Rightarrow> Some (Inl e)
            | Inr s' \<Rightarrow> Some (Inr (getType NOTYPE name s, s', [Lock, Unlock, Lock, Unlock]))))"
  using assms by (simp add: addType_def Let_def)

lemma addType_new:
  assumes "getType NOTYPE name s = NOTYPE"
  shows "addType NOTYPE parent name s =
     (if \<not> in_range (grown (inheritanceMap s) (nTypes s + 1)) (nTypes s) (nTypes s)
        \<or> \<not> in_range (grown (inheritanceMap s) (nTypes s + 1)) parent (nTypes s)
      then Some (Inl OutOfBounds)
      else Option.bind (setParentRecursively parent (nTypes s) (fresh parent s))
        (\<lambda>r. case r of Inl e \<Rightarrow> Some (Inl e)
            | Inr s6 \<Rightarrow>
                Some (Inr (nTypes s,
                  s6\<lparr>name2CodeMap := (name2CodeMap s6)(name \<mapsto> nTypes s),
                     code2NameMap := (code2NameMap s6)(nTypes s \<mapsto> name)\<rparr>,
                  [Lock, Unlock, Lock, Unlock,
                   Signal (nTypes s)
                     (s6\<lparr>name2CodeMap := (name2CodeMap s6)(name \<mapsto> nTypes s),
                        code2NameMap := (code2NameMap s6)(nTypes s \<mapsto> name)\<rparr>)]))))"
proof -
  have sq: "square (unat (nTypes s + 1)) (grown m (nTypes s + 1))" for m
    by (rule square_grown)
  have a: "in_range (set_true (grown (inheritanceMap s) (nTypes s + 1)) (nTypes s) (nTypes s)) parent (nTypes s)
      = in_range (grown (inheritanceMap s) (nTypes s + 1)) parent (nTypes s)"
    by (rule in_range_shape [OF shape_set_true])
  have b: "in_range (grown (recursiveMap s) (nTypes s + 1)) (nTypes s) (nTypes s)
      = in_range (grown (inheritanceMap s) (nTypes s + 1)) (nTypes s) (nTypes s)"
    using sq [of "recursiveMap s"] sq [of "inheritanceMap s"]
    by (auto simp: square_def in_range_def)
  show ?thesis
    using assms
    by (simp add: addType_def Let_def a b fresh_def grown_def [symmetric])
qed

text \<open>What a call that returns has done, in each of the two branches.\<close>

lemma addType_existing_result:
  assumes run: "addType NOTYPE parent name s = Some (Inr (t, s', evs))"
    and ex: "getType NOTYPE name s \<noteq> NOTYPE"
  shows "t = getType NOTYPE name s
     \<and> (\<exists>rm. s' = s\<lparr>inheritanceMap := set_true (inheritanceMap s) parent t, recursiveMap := rm\<rparr>)"
proof -
  let ?t = "getType NOTYPE name s"
  let ?sa = "s\<lparr>inheritanceMap := set_true (inheritanceMap s) parent ?t\<rparr>"
  from run ex have spr: "setParentRecursively parent ?t ?sa = Some (Inr s')" and t: "t = ?t"
    by (auto simp: addType_existing split: if_splits sum.splits Option.bind_splits)
  from setParentRecursively_frame [OF spr] t show ?thesis by auto
qed

lemma addType_new_result:
  assumes run: "addType NOTYPE parent name s = Some (Inr (t, s', evs))"
    and new: "getType NOTYPE name s = NOTYPE"
  shows "t = nTypes s \<and> unat (nTypes s + 1) = unat (nTypes s) + 1
     \<and> (\<exists>rm. s' = (fresh parent s)\<lparr>recursiveMap := rm,
            name2CodeMap := (name2CodeMap s)(name \<mapsto> nTypes s),
            code2NameMap := (code2NameMap s)(nTypes s \<mapsto> name)\<rparr>)"
proof -
  let ?t = "nTypes s"
  let ?g = "grown (inheritanceMap s) (nTypes s + 1)"
  from run new obtain s6 where r1: "in_range ?g ?t ?t"
    and spr: "setParentRecursively parent ?t (fresh parent s) = Some (Inr s6)" and t: "t = ?t"
    and s1: "s' = s6\<lparr>name2CodeMap := (name2CodeMap s6)(name \<mapsto> ?t),
                      code2NameMap := (code2NameMap s6)(?t \<mapsto> name)\<rparr>"
    by (auto simp: addType_new split: if_splits sum.splits Option.bind_splits)
  from r1 have "unat ?t < unat (?t + 1)" by (simp add: in_range_grown)
  then have grow: "unat (?t + 1) = unat ?t + 1" by (rule unat_succ_grows)
  from setParentRecursively_frame [OF spr] obtain rm where "s6 = (fresh parent s)\<lparr>recursiveMap := rm\<rparr>"
    by auto
  with s1 have "s' = (fresh parent s)\<lparr>recursiveMap := rm,
            name2CodeMap := (name2CodeMap s)(name \<mapsto> nTypes s),
            code2NameMap := (code2NameMap s)(nTypes s \<mapsto> name)\<rparr>"
    by (simp add: fresh_def)
  with t grow show ?thesis by blast
qed

lemma addType_again:
  assumes name: "name2CodeMap s1 name = Some t" and nt: "t \<noteq> NOTYPE"
    and wr: "in_range (inheritanceMap s1) parent t"
    and cell: "inheritanceMap s1 ! unat parent ! unat t"
    and m: "marked parent t s1"
  shows "addType NOTYPE parent name s1 = Some (Inr (t, s1, [Lock, Unlock, Lock, Unlock]))"
proof -
  from name have g: "getType NOTYPE name s1 = t" by (simp add: getType_def)
  from wr cell have "s1\<lparr>inheritanceMap := set_true (inheritanceMap s1) parent t\<rparr> = s1"
    by (simp add: set_true_id)
  with g nt wr marked_setParentRecursively [OF m] show ?thesis
    by (simp add: addType_existing)
qed

lemma addType_nTypes_mono:
  assumes "addType NOTYPE parent name s = Some (Inr (t, s', evs))"
  shows "nTypes s \<le> nTypes s'"
proof (cases "getType NOTYPE name s = NOTYPE")
  case True
  from addType_new_result [OF assms True] obtain rm where
    grow: "unat (nTypes s + 1) = unat (nTypes s) + 1"
    and "s' = (fresh parent s)\<lparr>recursiveMap := rm,
            name2CodeMap := (name2CodeMap s)(name \<mapsto> nTypes s),
            code2NameMap := (code2NameMap s)(nTypes s \<mapsto> name)\<rparr>"
    by blast
  then have "nTypes s' = nTypes s + 1" by (simp add: fresh_def)
  with grow show ?thesis by (simp add: word_le_nat_alt)
next
  case False
  from addType_existing_result [OF assms False] show ?thesis by auto
qed

lemma addTypes_nTypes_mono:
  assumes "addTypes NOTYPE calls s = Some (Inr s')"
  shows "nTypes s \<le> nTypes s'"
  using assms
proof (induction calls arbitrary: s)
  case Nil
  then show ?case by simp
next
  case (Cons c calls)
  obtain parent name where c: "c = (parent, name)" by (cases c)
  from Cons.prems obtain t s1 evs where
    one: "addType NOTYPE parent name s = Some (Inr (t, s1, evs))"
    and rest: "addTypes NOTYPE calls s1 = Some (Inr s')"
    unfolding c by (auto split: Option.bind_splits sum.splits)
  from addType_nTypes_mono [OF one] Cons.IH [OF rest] show ?case by simp
qed

subsection \<open>Invariants of the registry\<close>

lemma addType_names:
  assumes run: "addType NOTYPE parent name s = Some (Inr (t, s', evs))"
    and bij: "names_bijective s" and named: "codes_named s" and bound: "nTypes s' \<le> NOTYPE"
  shows "names_bijective s' \<and> codes_named s'"
proof (cases "getType NOTYPE name s = NOTYPE")
  case False
  from addType_existing_result [OF run False] bij named show ?thesis
    by (auto simp: names_bijective_def codes_named_def)
next
  case True
  from addType_new_result [OF run True] obtain rm where
    grow: "unat (nTypes s + 1) = unat (nTypes s) + 1"
    and s': "s' = (fresh parent s)\<lparr>recursiveMap := rm,
            name2CodeMap := (name2CodeMap s)(name \<mapsto> nTypes s),
            code2NameMap := (code2NameMap s)(nTypes s \<mapsto> name)\<rparr>"
    by blast
  have n': "nTypes s' = nTypes s + 1" by (simp add: s' fresh_def)
  have "nTypes s < nTypes s + 1" using grow by (simp add: word_less_nat_alt)
  with bound have lt: "nTypes s < NOTYPE" by (simp add: n')
  have free: "code2NameMap s (nTypes s) = None"
    using named by (auto simp: codes_named_def)
  have new: "name2CodeMap s name = None"
  proof (cases "name2CodeMap s name")
    case (Some c)
    with True have "c = NOTYPE" by (simp add: getType_def)
    with Some bij have "code2NameMap s NOTYPE = Some name" by (simp add: names_bijective_def)
    with named have "NOTYPE < nTypes s" by (auto simp: codes_named_def)
    with lt show ?thesis by simp
  qed simp
  have inv: "name2CodeMap s nm = Some c \<longleftrightarrow> code2NameMap s c = Some nm" for nm c
    using bij by (simp add: names_bijective_def)
  have "names_bijective s'"
    unfolding names_bijective_def
  proof (intro allI)
    fix nm c
    show "name2CodeMap s' nm = Some c \<longleftrightarrow> code2NameMap s' c = Some nm"
    proof (cases "nm = name")
      case True
      show ?thesis
      proof (cases "c = nTypes s")
        case True
        with \<open>nm = name\<close> show ?thesis by (simp add: s')
      next
        case False
        from new inv [of name c] have "code2NameMap s c \<noteq> Some name" by simp
        with False \<open>nm = name\<close> show ?thesis by (simp add: s')
      qed
    next
      case False
      show ?thesis
      proof (cases "c = nTypes s")
        case True
        from free inv [of nm "nTypes s"] have "name2CodeMap s nm \<noteq> Some (nTypes s)" by simp
        with False True show ?thesis by (simp add: s')
      next
        case c: False
        with False inv [of nm c] show ?thesis by (simp add: s')
      qed
    qed
  qed
  moreover have "codes_named s'"
    using named by (auto simp: codes_named_def s' fresh_def word_less_succ [OF grow])
  ultimately show ?thesis by simp
qed

lemma addTypes_names:
  assumes "addTypes NOTYPE calls s = Some (Inr s')"
    and "names_bijective s" and "codes_named s" and "nTypes s' \<le> NOTYPE"
  shows "names_bijective s' \<and> codes_named s'"
  using assms
proof (induction calls arbitrary: s)
  case Nil
  then show ?case by simp
next
  case (Cons c calls)
  obtain parent name where c: "c = (parent, name)" by (cases c)
  from Cons.prems(1) obtain t s1 evs where
    one: "addType NOTYPE parent name s = Some (Inr (t, s1, evs))"
    and rest: "addTypes NOTYPE calls s1 = Some (Inr s')"
    unfolding c by (auto split: Option.bind_splits sum.splits)
  from addTypes_nTypes_mono [OF rest] Cons.prems(4) have "nTypes s1 \<le> NOTYPE" by simp
  from addType_names [OF one Cons.prems(2,3) this] have "names_bijective s1" "codes_named s1"
    by simp_all
  from Cons.IH [OF rest this Cons.prems(4)] show ?case .
qed

lemma init_names: "names_bijective ClassServer_init \<and> codes_named ClassServer_init"
  by (simp add: names_bijective_def codes_named_def ClassServer_init_def)

lemma addType_codes_live:
  assumes run: "addType NOTYPE parent name s = Some (Inr (t, s', evs))" and live: "codes_live s"
  shows "codes_live s'"
proof (cases "getType NOTYPE name s = NOTYPE")
  case False
  from addType_existing_result [OF run False] live show ?thesis
    by (auto simp: codes_live_def)
next
  case True
  from addType_new_result [OF run True] obtain rm where
    grow: "unat (nTypes s + 1) = unat (nTypes s) + 1"
    and s': "s' = (fresh parent s)\<lparr>recursiveMap := rm,
            name2CodeMap := (name2CodeMap s)(name \<mapsto> nTypes s),
            code2NameMap := (code2NameMap s)(nTypes s \<mapsto> name)\<rparr>"
    by blast
  from live show ?thesis
    by (auto simp: codes_live_def s' fresh_def word_less_succ [OF grow] split: if_splits)
qed

lemma addTypes_codes_live:
  assumes "addTypes NOTYPE calls s = Some (Inr s')" and "codes_live s"
  shows "codes_live s'"
  using assms
proof (induction calls arbitrary: s)
  case Nil
  then show ?case by simp
next
  case (Cons c calls)
  obtain parent name where c: "c = (parent, name)" by (cases c)
  from Cons.prems(1) obtain t s1 evs where
    one: "addType NOTYPE parent name s = Some (Inr (t, s1, evs))"
    and rest: "addTypes NOTYPE calls s1 = Some (Inr s')"
    unfolding c by (auto split: Option.bind_splits sum.splits)
  from Cons.IH [OF rest addType_codes_live [OF one Cons.prems(2)]] show ?case .
qed

lemma addType_inv:
  assumes run: "addType NOTYPE parent name s = Some (Inr (t, s', evs))" and inv: "registry_inv s"
  shows "registry_inv s'"
proof (cases "getType NOTYPE name s = NOTYPE")
  case False
  let ?t = "getType NOTYPE name s"
  let ?sa = "s\<lparr>inheritanceMap := set_true (inheritanceMap s) parent ?t\<rparr>"
  from inv have sqi: "square (unat (nTypes s)) (inheritanceMap s)"
    and sqr: "square (unat (nTypes s)) (recursiveMap s)"
    and live: "names_live s" and snd: "closure_sound s"
    by (simp_all add: registry_inv_def wf_matrices_def)
  from run False have wr: "in_range (inheritanceMap s) parent ?t"
    and spr: "setParentRecursively parent ?t ?sa = Some (Inr s')"
    by (auto simp: addType_existing split: if_splits sum.splits Option.bind_splits)
  from setParentRecursively_frame [OF spr] obtain rm where s': "s' = ?sa\<lparr>recursiveMap := rm\<rparr>"
    by auto
  from False have "name2CodeMap s name = Some ?t"
    by (auto simp: getType_def split: option.splits)
  with live have t: "?t < nTypes s" by (simp add: names_live_def)
  from wr sqi have p: "parent < nTypes s"
    by (simp add: in_range_def square_def word_less_nat_alt)
  have rng: "in_range (set_true (inheritanceMap s) parent ?t) a b = in_range (inheritanceMap s) a b" for a b
    by (simp add: in_range_shape [OF shape_set_true])
  have cell: "set_true (inheritanceMap s) parent ?t ! unat a ! unat b
      = ((a = parent \<and> b = ?t) \<or> inheritanceMap s ! unat a ! unat b)" for a b
    by (auto simp: nth_set_true [OF wr])
  have sub: "direct s \<subseteq> direct ?sa"
  proof
    fix x assume "x \<in> direct s"
    then show "x \<in> direct ?sa"
      by (cases x) (simp add: direct_iff rng cell)
  qed
  have "(parent, ?t) \<in> direct ?sa"
    using p t wr by (simp add: direct_iff rng cell)
  then have edge: "(parent, ?t) \<in> (direct ?sa)\<^sup>*" by (rule r_into_rtrancl)
  have snda: "closure_sound ?sa"
    using snd sub by (rule closure_sound_mono) simp_all
  have snd': "closure_sound s'"
    using spr snda _ _ edge by (rule setParentRecursively_sound) (simp_all add: p t)
  have "square (unat (nTypes s)) (recursiveMap s')"
    using sqr by (simp add: square_shape [OF setParentRecursively_shape [OF spr]])
  with sqi have "wf_matrices s'"
    by (simp add: wf_matrices_def s' square_set_true)
  moreover from live have "names_live s'" by (simp add: names_live_def s')
  ultimately show ?thesis using snd' by (simp add: registry_inv_def)
next
  case True
  let ?n = "nTypes s"
  let ?f = "fresh parent s"
  let ?g = "grown (inheritanceMap s) (?n + 1)"
  from inv have sqi: "square (unat ?n) (inheritanceMap s)"
    and sqr: "square (unat ?n) (recursiveMap s)"
    and live: "names_live s" and snd: "closure_sound s"
    by (simp_all add: registry_inv_def wf_matrices_def)
  from run True obtain s6 where r2: "in_range ?g parent ?n"
    and spr: "setParentRecursively parent ?n ?f = Some (Inr s6)"
    and s': "s' = s6\<lparr>name2CodeMap := (name2CodeMap s6)(name \<mapsto> ?n),
                      code2NameMap := (code2NameMap s6)(?n \<mapsto> name)\<rparr>"
    by (auto simp: addType_new split: if_splits sum.splits Option.bind_splits)
  from addType_new_result [OF run True] have grow: "unat (?n + 1) = unat ?n + 1" by simp
  from setParentRecursively_frame [OF spr] obtain rm where s6: "s6 = ?f\<lparr>recursiveMap := rm\<rparr>"
    by auto
  have lt: "x < ?n + 1 \<longleftrightarrow> x < ?n \<or> x = ?n" for x
    by (rule word_less_succ [OF grow])
  have nn: "?n < ?n + 1" by (simp add: lt)
  from r2 have p: "parent < ?n + 1" by (simp add: in_range_grown word_less_nat_alt)
  have r1: "in_range ?g ?n ?n" and r3: "in_range (set_true ?g ?n ?n) parent ?n"
    and r4: "in_range (grown (recursiveMap s) (?n + 1)) ?n ?n"
    using r2 by (simp_all add: in_range_grown in_range_shape [OF shape_set_true] grow)
  have imf: "inheritanceMap ?f ! unat a ! unat b
      = ((a = parent \<and> b = ?n) \<or> (a = ?n \<and> b = ?n) \<or> (a < ?n \<and> b < ?n \<and> inheritanceMap s ! unat a ! unat b))"
    if "a < ?n + 1" and "b < ?n + 1" for a b
  proof -
    have "inheritanceMap ?f ! unat a ! unat b
        = ((a = parent \<and> b = ?n) \<or> (a = ?n \<and> b = ?n) \<or> ?g ! unat a ! unat b)"
      by (auto simp: fresh_def nth_set_true [OF r3] nth_set_true [OF r1])
    moreover have "?g ! unat a ! unat b = (a < ?n \<and> b < ?n \<and> inheritanceMap s ! unat a ! unat b)"
      using that nth_grown [OF sqi, of "unat a" "?n + 1" "unat b"]
      by (simp add: word_less_nat_alt)
    ultimately show ?thesis by simp
  qed
  have rmf: "recursiveMap ?f ! unat a ! unat b
      = ((a = ?n \<and> b = ?n) \<or> (a < ?n \<and> b < ?n \<and> recursiveMap s ! unat a ! unat b))"
    if "a < ?n + 1" and "b < ?n + 1" for a b
  proof -
    have "recursiveMap ?f ! unat a ! unat b
        = ((a = ?n \<and> b = ?n) \<or> grown (recursiveMap s) (?n + 1) ! unat a ! unat b)"
      by (auto simp: fresh_def nth_set_true [OF r4])
    moreover have "grown (recursiveMap s) (?n + 1) ! unat a ! unat b
        = (a < ?n \<and> b < ?n \<and> recursiveMap s ! unat a ! unat b)"
      using that nth_grown [OF sqr, of "unat a" "?n + 1" "unat b"]
      by (simp add: word_less_nat_alt)
    ultimately show ?thesis by simp
  qed
  have sqf: "square (unat (?n + 1)) (inheritanceMap ?f)" "square (unat (?n + 1)) (recursiveMap ?f)"
    by (simp_all add: fresh_def square_set_true square_grown)
  have rng: "in_range (inheritanceMap ?f) a b" if "a < ?n + 1" and "b < ?n + 1" for a b
    using that sqf(1) by (auto simp: word_less_nat_alt intro: square_in_range)
  have sub: "direct s \<subseteq> direct ?f"
  proof
    fix x assume "x \<in> direct s"
    then obtain a b where x: "x = (a, b)" and ab: "b < ?n" "a < ?n"
      and cell: "inheritanceMap s ! unat a ! unat b"
      by (cases x) (auto simp: direct_iff)
    from ab have ab': "a < ?n + 1" "b < ?n + 1" by (simp_all add: lt)
    from ab cell have "inheritanceMap ?f ! unat a ! unat b" by (simp add: imf [OF ab'])
    with ab' rng [OF ab'] show "x \<in> direct ?f"
      by (simp add: x direct_iff) (simp add: fresh_def)
  qed
  have "inheritanceMap ?f ! unat parent ! unat ?n" by (simp add: imf [OF p nn])
  with p nn rng [OF p nn] have "(parent, ?n) \<in> direct ?f"
    by (simp add: direct_iff) (simp add: fresh_def)
  then have edge: "(parent, ?n) \<in> (direct ?f)\<^sup>*" by (rule r_into_rtrancl)
  have sndf: "closure_sound ?f"
    unfolding closure_sound_def
  proof (intro allI impI)
    fix a b assume "a < nTypes ?f \<and> b < nTypes ?f \<and> recursiveMap ?f ! unat a ! unat b"
    then have ab': "a < ?n + 1" "b < ?n + 1" and c: "recursiveMap ?f ! unat a ! unat b"
      by (simp_all add: fresh_def)
    from c rmf [OF ab'] have "(a = ?n \<and> b = ?n) \<or> (a < ?n \<and> b < ?n \<and> recursiveMap s ! unat a ! unat b)"
      by simp
    then show "(a, b) \<in> (direct ?f)\<^sup>*"
    proof
      assume "a = ?n \<and> b = ?n"
      then show ?thesis by simp
    next
      assume "a < ?n \<and> b < ?n \<and> recursiveMap s ! unat a ! unat b"
      with snd have "(a, b) \<in> (direct s)\<^sup>*" by (simp add: closure_sound_def)
      with rtrancl_mono [OF sub] show ?thesis by blast
    qed
  qed
  have "closure_sound s6"
    using spr sndf _ _ edge by (rule setParentRecursively_sound) (simp_all add: p nn fresh_def)
  then have snd': "closure_sound s'"
    by (rule closure_sound_mono) (simp_all add: s' direct_def isA_non_recursive_def)
  have "square (unat (?n + 1)) (recursiveMap s6)"
    using sqf(2) by (simp add: square_shape [OF setParentRecursively_shape [OF spr]])
  with sqf(1) have "wf_matrices s'"
    by (simp add: wf_matrices_def s' s6 fresh_def)
  moreover from live have "names_live s'"
    by (auto simp: names_live_def s' s6 fresh_def lt)
  ultimately show ?thesis using snd' by (simp add: registry_inv_def)
qed

lemma addTypes_inv:
  assumes "addTypes NOTYPE calls s = Some (Inr s')" and "registry_inv s"
  shows "registry_inv s'"
  using assms
proof (induction calls arbitrary: s)
  case Nil
  then show ?case by simp
next
  case (Cons c calls)
  obtain parent name where c: "c = (parent, name)" by (cases c)
  from Cons.prems(1) obtain t s1 evs where
    one: "addType NOTYPE parent name s = Some (Inr (t, s1, evs))"
    and rest: "addTypes NOTYPE calls s1 = Some (Inr s')"
    unfolding c by (auto split: Option.bind_splits sum.splits)
  from Cons.IH [OF rest addType_inv [OF one Cons.prems(2)]] show ?case .
qed

lemma init_inv: "registry_inv ClassServer_init"
  by (simp add: registry_inv_def wf_matrices_def square_def names_live_def closure_sound_def
      ClassServer_init_def)

text \<open>
  On square matrices and with names bound to codes below \<open>nTypes\<close>, \<open>addType\<close> stays
  inside the matrices for a parent that is a registered code, or the code about to be
  handed out.
\<close>

lemma addType_safe:
  assumes wf: "wf_matrices s" and live: "names_live s"
    and ex: "getType NOTYPE name s \<noteq> NOTYPE \<longrightarrow> parent < nTypes s"
    and new: "getType NOTYPE name s = NOTYPE \<longrightarrow> parent \<le> nTypes s \<and> nTypes s \<noteq> - 1"
  shows "addType NOTYPE parent name s \<noteq> Some (Inl e)"
proof (cases "getType NOTYPE name s = NOTYPE")
  case False
  let ?t = "getType NOTYPE name s"
  let ?sa = "s\<lparr>inheritanceMap := set_true (inheritanceMap s) parent ?t\<rparr>"
  from False have "name2CodeMap s name = Some ?t"
    by (auto simp: getType_def split: option.splits)
  with live have t: "?t < nTypes s" by (simp add: names_live_def)
  from False ex have p: "parent < nTypes s" by simp
  from wf p t have wr: "in_range (inheritanceMap s) parent ?t"
    by (auto simp: wf_matrices_def word_less_nat_alt intro: square_in_range)
  have "setParentRecursively parent ?t ?sa \<noteq> Some (Inl e)"
    using wf p t by (intro setParentRecursively_safe) (simp_all add: wf_matrices_def)
  with False wr show ?thesis
    by (auto simp: addType_existing split: Option.bind_splits sum.splits)
next
  case True
  let ?t = "nTypes s"
  from True new have p: "parent \<le> nTypes s" and nm: "nTypes s \<noteq> - 1" by simp_all
  from nm have grow: "unat (?t + 1) = unat ?t + 1" by (rule unat_succ_not_max)
  from p have p': "unat parent < unat (?t + 1)" by (simp add: grow word_le_nat_alt)
  have r: "in_range (grown (inheritanceMap s) (?t + 1)) ?t ?t"
    "in_range (grown (inheritanceMap s) (?t + 1)) parent ?t"
    using p' by (simp_all add: in_range_grown grow)
  have "square (unat (?t + 1)) (recursiveMap (fresh parent s))"
    by (simp add: fresh_def square_set_true square_grown)
  moreover have "parent < nTypes (fresh parent s)" "?t < nTypes (fresh parent s)"
    using p' by (simp_all add: fresh_def word_less_nat_alt grow)
  ultimately have "setParentRecursively parent ?t (fresh parent s) \<noteq> Some (Inl e)"
    by (intro setParentRecursively_safe) (simp_all add: fresh_def)
  with True r show ?thesis
    by (auto simp: addType_new split: Option.bind_splits sum.splits)
qed

subsection \<open>Registrations on small registries\<close>

lemmas eval_defs = replicate_numeral list_update_numeral addType_def getType_def resize_def in_range_def set_true_def
  setParentRecursively_def ClassServer_init_def Let_def

lemma addType_A: "addType 0xFFFF 0 ''A'' ClassServer_init =
   Some (Inr (0, reg_A, [Lock, Unlock, Lock, Unlock, Signal 0 reg_A]))"
  by (simp add: eval_defs reg_A_def setParentRecursively_loop.simps)

lemma addType_B: "addType 0xFFFF 0 ''B'' reg_A =
   Some (Inr (1, reg_AB, [Lock, Unlock, Lock, Unlock, Signal 1 reg_AB]))"
  by (simp add: eval_defs reg_A_def reg_AB_def setParentRecursively_loop.simps)

lemma addType_A_again: "addType 0xFFFF 0 ''A'' reg_A = Some (Inr (0, reg_A, [Lock, Unlock, Lock, Unlock]))"
  by (simp add: eval_defs reg_A_def setParentRecursively_loop.simps)

lemma addType_C: "addType 0xFFFF 1 ''C'' reg_AB =
   Some (Inr (2, reg_ABC, [Lock, Unlock, Lock, Unlock, Signal 2 reg_ABC]))"
  by (simp add: eval_defs reg_AB_def reg_ABC_def setParentRecursively_loop.simps)

lemma addTypes_AB: "addTypes 0xFFFF [(0, ''A''), (0, ''B'')] ClassServer_init = Some (Inr reg_AB)"
  by (simp add: addType_A addType_B)

lemma anc_rel_reg_ABC: "anc_rel reg_ABC \<subseteq> {(i, p). i < p}"
proof
  fix x assume "x \<in> anc_rel reg_ABC"
  then obtain i p where x: "x = (i, p)" and i: "i < 3" and p: "p < 3" and ne: "i \<noteq> p"
    and cell: "recursiveMap reg_ABC ! unat i ! unat p"
    by (auto simp: anc_rel_def reg_ABC_def)
  from word_less_3 [OF i] word_less_3 [OF p] ne cell have "i < p"
    by (auto simp: reg_ABC_def)
  with x show "x \<in> {(i, p). i < p}" by simp
qed

lemma all_set_diverges:
  assumes "setParentRecursively_loop i p t s = Some r"
  shows "\<not> (nTypes s = 2 \<and> recursiveMap s = [[True, True], [True, True]] \<and> t = 0
          \<and> ((i = 0 \<and> p = 1) \<or> (i = 0 \<and> p = 0) \<or> (i = 1 \<and> p = 0)))"
  using assms
proof (induction rule: spr_loop_cases)
  case (exit i parent type s)
  then show ?case by auto
next
  case (oob_read i parent type s)
  then show ?case by (auto simp: in_range_def)
next
  case (skip i parent type s r)
  then show ?case by auto
next
  case (oob_write i parent type s)
  then show ?case by (auto simp: in_range_def)
next
  case (call_err i parent type s e)
  then show ?case by (auto simp: in_range_def set_true_def)
next
  case (call_ok i parent type s s1 r)
  then show ?case by (auto simp: in_range_def set_true_def)
qed

section \<open>The loop of the binding layer\<close>


lemma ss_get_types_loop_nonempty: "ss_get_types_loop t list s \<noteq> SCM_EOL"
  by (induction t list s rule: ss_get_types_loop.induct)
    (subst ss_get_types_loop.simps, simp add: Let_def)


section \<open>C1: closure after a later parent\<close>

text \<open>
  One direction of the closure property holds of the code: on every registry that a
  sequence of \<open>addType\<close> calls has left, \<open>isA child parent\<close> holds only if a path of
  direct edges leads from \<open>parent\<close> down to \<open>child\<close>.
\<close>

lemma isA_sound:
  assumes "addTypes NOTYPE calls ClassServer_init = Some (Inr s)" and "isA child parent s"
  shows "(parent, child) \<in> (direct s)\<^sup>*"
proof -
  from addTypes_inv [OF assms(1) init_inv] have "closure_sound s"
    by (simp add: registry_inv_def)
  with assms(2) show ?thesis
    by (simp add: isA_def closure_sound_def)
qed

text \<open>
  C1 says that after any sequence of \<open>addType\<close> calls whose direct edges form a DAG,
  \<open>isA child parent\<close> holds exactly when a path of direct edges leads from \<open>child\<close> up to
  \<open>parent\<close>. The code propagates a new edge to the ancestors of the parent, and not to the
  descendants of the child: register A, then B and D under A, then C under B, then B again
  under D. The direct edges C to B and B to D are there, and \<open>isA C D\<close> is false.
\<close>

theorem closure_misses_descendants:
  "(case addTypes 0xFFFF [(0, ''A''), (0, ''B''), (0, ''D''), (1, ''C''), (2, ''B'')]
           ClassServer_init of
      Some (Inr s) \<Rightarrow>
        isA_non_recursive 3 1 s = Inr True \<and> isA_non_recursive 1 2 s = Inr True \<and> \<not> isA 3 2 s
    | _ \<Rightarrow> False)"
  by code_simp

section \<open>C2: notification\<close>

text \<open>
  C2, as stated, has every call of \<open>addType\<close> emit exactly one notification, also the
  registration of a name that is live already. Counterexample: \<^verbatim>\<open>addType(0, "A")\<close> on the
  registry that holds A returns without firing the signal.
\<close>

theorem addType_again_emits_nothing:
  "addType 0xFFFF 0 ''A'' ClassServer_init
     = Some (Inr (0, reg_A, [Lock, Unlock, Lock, Unlock, Signal 0 reg_A]))
   \<and> addType 0xFFFF 0 ''A'' reg_A = Some (Inr (0, reg_A, [Lock, Unlock, Lock, Unlock]))
   \<and> signalled [Lock, Unlock, Lock, Unlock] = []"
  by (simp add: addType_A addType_A_again)

text \<open>
  C2, amended: a call of \<open>addType\<close> that returns has fired the signal exactly once if the
  name was new (\<open>getType\<close> gave \<open>NOTYPE\<close>), with the returned code, after the second
  release of the mutex and on the members as the call leaves them; it has not fired it if
  the name was live.
\<close>

theorem addType_events:
  assumes "addType NOTYPE parent name s = Some (Inr (t, s', evs))"
  shows "(getType NOTYPE name s = NOTYPE \<longrightarrow> evs = [Lock, Unlock, Lock, Unlock, Signal t s'])
       \<and> (getType NOTYPE name s \<noteq> NOTYPE \<longrightarrow> evs = [Lock, Unlock, Lock, Unlock])"
  using assms
  by (auto simp: addType_def Let_def split: if_splits sum.splits Option.bind_splits)

theorem addType_events_witness:
  "addType 0xFFFF 0 ''B'' reg_A
     = Some (Inr (1, reg_AB, [Lock, Unlock, Lock, Unlock, Signal 1 reg_AB]))
   \<and> getType 0xFFFF ''B'' reg_A = 0xFFFF
   \<and> signalled [Lock, Unlock, Lock, Unlock, Signal 1 reg_AB] = [1]"
proof -
  have "getType 0xFFFF ''B'' reg_A = 0xFFFF"
    by (simp add: getType_def reg_A_def)
  with addType_events [OF addType_B] addType_B show ?thesis
    by simp
qed

section \<open>C3: registering the same pair twice\<close>

text \<open>
  C3, as stated, has \<open>addType\<close> return the same code twice for every state and every
  registered parent. Counterexample: on the registry that holds A and B, B under A, the
  parent 1 is registered, and \<^verbatim>\<open>addType(1, "A")\<close> (A under B) never returns: the new edge
  closes a cycle and closure propagation recurses for ever.
\<close>

theorem addType_cycle_never_returns:
  "addTypes 0xFFFF [(0, ''A''), (0, ''B'')] ClassServer_init = Some (Inr reg_AB)
   \<and> 1 < nTypes reg_AB
   \<and> addType 0xFFFF 1 ''A'' reg_AB = None"
proof -
  let ?s = "reg_AB\<lparr>inheritanceMap := [[True, True], [True, True]],
                   recursiveMap := [[True, True], [True, True]]\<rparr>"
  have loop: "setParentRecursively_loop 0 1 0 ?s = None"
  proof (cases "setParentRecursively_loop 0 1 0 ?s")
    case (Some r)
    from all_set_diverges [OF this] show ?thesis by (simp add: reg_AB_def)
  qed simp
  have "addType 0xFFFF 1 ''A'' reg_AB
      = Option.bind (setParentRecursively_loop 0 1 0 ?s)
          (\<lambda>r. case r of Inl e \<Rightarrow> Some (Inl e)
              | Inr s' \<Rightarrow> Some (Inr (0, s', [Lock, Unlock, Lock, Unlock])))"
    by (simp add: addType_def getType_def setParentRecursively_def in_range_def set_true_def
        Let_def reg_AB_def)
  with loop have "addType 0xFFFF 1 ''A'' reg_AB = None" by simp
  moreover have "1 < nTypes reg_AB" by (simp add: reg_AB_def)
  ultimately show ?thesis using addTypes_AB by simp
qed

text \<open>
  C3, amended: if \<open>addType parent name\<close> returns the code \<open>t\<close>, a code other than
  \<open>NOTYPE\<close>, and leaves the members \<open>s1\<close>, then the same call on \<open>s1\<close> returns \<open>t\<close>
  again and leaves \<open>s1\<close> as it is: \<open>nTypes\<close>, both tables and both matrices.
\<close>

theorem addType_idempotent:
  assumes run: "addType NOTYPE parent name s = Some (Inr (t, s1, evs))"
    and nt: "t \<noteq> NOTYPE"
  shows "addType NOTYPE parent name s1 = Some (Inr (t, s1, [Lock, Unlock, Lock, Unlock]))"
proof (cases "getType NOTYPE name s = NOTYPE")
  case False
  let ?t = "getType NOTYPE name s"
  let ?sa = "s\<lparr>inheritanceMap := set_true (inheritanceMap s) parent ?t\<rparr>"
  from run False have wr: "in_range (inheritanceMap s) parent ?t"
    and spr: "setParentRecursively parent ?t ?sa = Some (Inr s1)" and t: "t = ?t"
    by (auto simp: addType_existing split: if_splits sum.splits Option.bind_splits)
  from setParentRecursively_frame [OF spr] obtain rm where s1: "s1 = ?sa\<lparr>recursiveMap := rm\<rparr>"
    by auto
  from False have "name2CodeMap s name = Some ?t"
    by (auto simp: getType_def split: option.splits)
  then have name: "name2CodeMap s1 name = Some t" by (simp add: s1 t)
  have wr1: "in_range (inheritanceMap s1) parent t"
    using wr by (simp add: s1 t in_range_shape [OF shape_set_true])
  have cell: "inheritanceMap s1 ! unat parent ! unat t"
    by (simp add: s1 t nth_set_true [OF wr])
  have m: "marked parent t s1"
    using spr unfolding t by (rule setParentRecursively_marked)
  from name wr1 cell m nt show ?thesis
    by (intro addType_again) simp_all
next
  case True
  let ?t = "nTypes s"
  let ?g = "grown (inheritanceMap s) (nTypes s + 1)"
  from run True obtain s6 where r1: "in_range ?g ?t ?t" and r2: "in_range ?g parent ?t"
    and spr: "setParentRecursively parent ?t (fresh parent s) = Some (Inr s6)" and t: "t = ?t"
    and s1: "s1 = s6\<lparr>name2CodeMap := (name2CodeMap s6)(name \<mapsto> ?t),
                      code2NameMap := (code2NameMap s6)(?t \<mapsto> name)\<rparr>"
    by (auto simp: addType_new split: if_splits sum.splits Option.bind_splits)
  from setParentRecursively_frame [OF spr] obtain rm where s6: "s6 = (fresh parent s)\<lparr>recursiveMap := rm\<rparr>"
    by auto
  have name: "name2CodeMap s1 name = Some t" by (simp add: s1 t)
  have im1: "inheritanceMap s1 = set_true (set_true ?g ?t ?t) parent ?t"
    by (simp add: s1 s6 fresh_def)
  have r3: "in_range (set_true ?g ?t ?t) parent ?t"
    using r2 by (simp add: in_range_shape [OF shape_set_true])
  have wr1: "in_range (inheritanceMap s1) parent t"
    using r3 by (simp add: im1 t in_range_shape [OF shape_set_true])
  have cell: "inheritanceMap s1 ! unat parent ! unat t"
    by (simp add: im1 t nth_set_true [OF r3])
  have "marked parent ?t s6" using spr by (rule setParentRecursively_marked)
  then have m: "marked parent t s1"
    unfolding t by (rule marked_fields) (simp_all add: s1)
  from name wr1 cell m nt show ?thesis
    by (intro addType_again) simp_all
qed

theorem addType_idempotent_witness:
  "addType 0xFFFF 0 ''B'' reg_A
     = Some (Inr (1, reg_AB, [Lock, Unlock, Lock, Unlock, Signal 1 reg_AB]))
   \<and> (1 :: Type) \<noteq> 0xFFFF
   \<and> addType 0xFFFF 0 ''B'' reg_AB = Some (Inr (1, reg_AB, [Lock, Unlock, Lock, Unlock]))"
proof -
  have nt: "(1 :: Type) \<noteq> 0xFFFF" by simp
  from addType_idempotent [OF addType_B nt] addType_B nt show ?thesis
    by simp
qed

section \<open>C4: names and codes\<close>

text \<open>
  C4: after every sequence of \<open>addType\<close> calls that has returned, started on the registry
  as the constructor makes it, the two lookups are inverse to each other: \<open>getTypeName\<close>
  of \<open>getType\<close> of a registered name is that name, \<open>getType\<close> of \<open>getTypeName\<close> of a code
  below \<open>nTypes\<close> is that code, no two names share a code and no code has two names.
  (\<open>NOTYPE\<close> is not a live code: \<open>nTypes\<close> has not gone beyond it.)
\<close>

theorem names_round_trip:
  assumes run: "addTypes NOTYPE calls ClassServer_init = Some (Inr s)"
    and sentinel: "nTypes s \<le> NOTYPE"
  shows "(\<forall>name. isDefined name s \<longrightarrow> getTypeName (getType NOTYPE name s) s = name)
     \<and> (\<forall>t. t < nTypes s \<longrightarrow> getType NOTYPE (getTypeName t s) s = t)
     \<and> (\<forall>n1 n2 t. name2CodeMap s n1 = Some t \<and> name2CodeMap s n2 = Some t \<longrightarrow> n1 = n2)
     \<and> (\<forall>t1 t2 n. code2NameMap s t1 = Some n \<and> code2NameMap s t2 = Some n \<longrightarrow> t1 = t2)"
proof -
  from addTypes_names [OF run _ _ sentinel] init_names
  have bij: "names_bijective s" and named: "codes_named s" by simp_all
  have a: "getTypeName (getType NOTYPE name s) s = name" if "isDefined name s" for name
  proof -
    from that obtain t where t: "name2CodeMap s name = Some t" by (auto simp: isDefined_def)
    with bij have "code2NameMap s t = Some name" by (simp add: names_bijective_def)
    with t show ?thesis by (simp add: getType_def getTypeName_def)
  qed
  have b: "getType NOTYPE (getTypeName t s) s = t" if "t < nTypes s" for t
  proof -
    from that named obtain nm where nm: "code2NameMap s t = Some nm"
      by (auto simp: codes_named_def)
    with bij have "name2CodeMap s nm = Some t" by (simp add: names_bijective_def)
    with nm show ?thesis by (simp add: getType_def getTypeName_def)
  qed
  have c: "n1 = n2" if "name2CodeMap s n1 = Some t" and "name2CodeMap s n2 = Some t" for n1 n2 t
    using that bij by (simp add: names_bijective_def)
  have d: "t1 = t2" if "code2NameMap s t1 = Some n" and "code2NameMap s t2 = Some n" for t1 t2 n
  proof -
    from that bij have "name2CodeMap s n = Some t1" and "name2CodeMap s n = Some t2"
      by (simp_all add: names_bijective_def)
    then show ?thesis by simp
  qed
  from a b c d show ?thesis by blast
qed

theorem names_round_trip_witness:
  "addTypes 0xFFFF [(0, ''A''), (0, ''B'')] ClassServer_init = Some (Inr reg_AB)
   \<and> nTypes reg_AB \<le> 0xFFFF
   \<and> isDefined ''B'' reg_AB \<and> getTypeName (getType 0xFFFF ''B'' reg_AB) reg_AB = ''B''
   \<and> 1 < nTypes reg_AB \<and> getType 0xFFFF (getTypeName 1 reg_AB) reg_AB = 1"
proof -
  have h: "nTypes reg_AB \<le> 0xFFFF" by (simp add: reg_AB_def)
  have d: "isDefined ''B'' reg_AB" and l: "1 < nTypes reg_AB"
    by (simp_all add: isDefined_def reg_AB_def)
  from names_round_trip [OF addTypes_AB h] addTypes_AB h d l show ?thesis
    by blast
qed

section \<open>C5: accesses inside the matrices\<close>

text \<open>
  C5, as stated, covers every parent, also one that is not a registered code.
  Counterexample: on the empty registry \<^verbatim>\<open>addType(5, "A")\<close> resizes the matrices to one row
  and reads \<^verbatim>\<open>inheritanceMap[5]\<close>.
\<close>

theorem addType_unregistered_parent_out_of_bounds:
  "addType 0xFFFF 5 ''A'' ClassServer_init = Some (Inl OutOfBounds)"
  by (simp add: eval_defs)

text \<open>
  C5, amended: on every registry that a sequence of \<open>addType\<close> calls has left,
  \<open>addType\<close> makes no access out of bounds if the parent is a registered code or, for a
  new name, the code that the call is about to hand out, and if for a new name the counter
  is not at its last value \<open>0xFFFF\<close>.
\<close>

theorem addType_in_bounds:
  assumes reach: "addTypes NOTYPE calls ClassServer_init = Some (Inr s)"
    and ex: "getType NOTYPE name s \<noteq> NOTYPE \<longrightarrow> parent < nTypes s"
    and new: "getType NOTYPE name s = NOTYPE \<longrightarrow> parent \<le> nTypes s \<and> nTypes s \<noteq> - 1"
  shows "addType NOTYPE parent name s \<noteq> Some (Inl e)"
proof -
  from addTypes_inv [OF reach init_inv] have "wf_matrices s" and "names_live s"
    by (simp_all add: registry_inv_def)
  then show ?thesis using ex new by (rule addType_safe)
qed

theorem addType_in_bounds_witness:
  "addTypes 0xFFFF [(0, ''A'')] ClassServer_init = Some (Inr reg_A)
   \<and> getType 0xFFFF ''B'' reg_A = 0xFFFF \<and> 1 \<le> nTypes reg_A \<and> nTypes reg_A \<noteq> - 1
   \<and> addType 0xFFFF 1 ''B'' reg_A \<noteq> Some (Inl OutOfBounds)"
proof -
  have a: "addTypes 0xFFFF [(0, ''A'')] ClassServer_init = Some (Inr reg_A)"
    by (simp add: addType_A)
  have c: "getType 0xFFFF ''B'' reg_A = 0xFFFF" by (simp add: getType_def reg_A_def)
  have d: "1 \<le> nTypes reg_A" and e: "nTypes reg_A \<noteq> - 1" by (simp_all add: reg_A_def)
  from addType_in_bounds [OF a, of "''B''" 1 OutOfBounds] a c d e show ?thesis
    by simp
qed

section \<open>C6: queries for what is not registered\<close>

text \<open>
  C6: on every registry that a sequence of \<open>addType\<close> calls has left, the queries answer
  with their sentinels and raise nothing: \<open>getType\<close> gives \<open>NOTYPE\<close> for a name that is not
  in the table, \<open>getTypeName\<close> gives the "unknown type" string for a code without a name, as
  is every code from \<open>nTypes\<close> on, and \<open>isA_non_recursive\<close> is false as soon as one of
  the two codes is not below \<open>nTypes\<close>, and reads inside the matrix for all codes.
\<close>

theorem queries_total:
  assumes run: "addTypes NOTYPE calls ClassServer_init = Some (Inr s)"
  shows "(\<not> isDefined name s \<longrightarrow> getType NOTYPE name s = NOTYPE)
     \<and> (code2NameMap s code = None \<or> nTypes s \<le> code \<longrightarrow> getTypeName code s = nullString)
     \<and> (nTypes s \<le> type \<or> nTypes s \<le> parent \<longrightarrow> isA_non_recursive type parent s = Inr False)
     \<and> (\<exists>b. isA_non_recursive type parent s = Inr b)"
proof -
  have "codes_live ClassServer_init" by (simp add: codes_live_def ClassServer_init_def)
  with run have live: "codes_live s" by (rule addTypes_codes_live)
  have "code2NameMap s code = None" if "nTypes s \<le> code"
  proof (cases "code2NameMap s code")
    case (Some nm)
    with live have "code < nTypes s" by (simp add: codes_live_def)
    with that show ?thesis by simp
  qed simp
  then have a: "(\<not> isDefined name s \<longrightarrow> getType NOTYPE name s = NOTYPE)
     \<and> (code2NameMap s code = None \<or> nTypes s \<le> code \<longrightarrow> getTypeName code s = nullString)
     \<and> (nTypes s \<le> type \<or> nTypes s \<le> parent \<longrightarrow> isA_non_recursive type parent s = Inr False)"
    by (auto simp: isDefined_def getType_def getTypeName_def isA_non_recursive_def)
  from addTypes_inv [OF run init_inv] have sq: "square (unat (nTypes s)) (inheritanceMap s)"
    by (simp add: registry_inv_def wf_matrices_def)
  have "\<exists>b. isA_non_recursive type parent s = Inr b"
  proof (cases "nTypes s \<le> type \<or> nTypes s \<le> parent")
    case True
    then have "isA_non_recursive type parent s = Inr False"
      by (simp add: isA_non_recursive_def)
    then show ?thesis ..
  next
    case False
    then have "unat parent < unat (nTypes s)" and "unat type < unat (nTypes s)"
      by (simp_all add: word_less_nat_alt not_le)
    with sq have "in_range (inheritanceMap s) parent type" by (rule square_in_range)
    with False have "isA_non_recursive type parent s
        = Inr (inheritanceMap s ! unat parent ! unat type)"
      by (simp add: isA_non_recursive_def)
    then show ?thesis ..
  qed
  with a show ?thesis by simp
qed

theorem queries_total_witness:
  "addTypes 0xFFFF [(0, ''A''), (0, ''B'')] ClassServer_init = Some (Inr reg_AB)
   \<and> \<not> isDefined ''C'' reg_AB \<and> getType 0xFFFF ''C'' reg_AB = 0xFFFF
   \<and> nTypes reg_AB \<le> 9 \<and> getTypeName 9 reg_AB = nullString
   \<and> isA_non_recursive 9 0 reg_AB = Inr False"
proof -
  have d: "\<not> isDefined ''C'' reg_AB" and l: "nTypes reg_AB \<le> 9"
    by (simp_all add: isDefined_def reg_AB_def)
  from queries_total [OF addTypes_AB, of "''C''" 9 9 0] addTypes_AB d l show ?thesis
    by auto
qed

section \<open>C7: termination of closure propagation\<close>

text \<open>
  C7, as stated, asks for the ancestor relation to be acyclic before the call only.
  Counterexample: with A and B registered, B under A, the relation is acyclic, and
  \<open>setParentRecursively 1 0\<close> (A under B) never returns: the call itself closes the cycle.
\<close>

theorem acyclic_state_propagation_diverges:
  "wf_matrices reg_AB \<and> 1 < nTypes reg_AB \<and> 0 < nTypes reg_AB \<and> acyclic (anc_rel reg_AB)
   \<and> setParentRecursively 1 0 reg_AB = None"
proof -
  have a: "wf_matrices reg_AB"
    by (simp add: wf_matrices_def square_def reg_AB_def)
  have b: "1 < nTypes reg_AB" and c: "0 < nTypes reg_AB"
    by (simp_all add: reg_AB_def)
  have "anc_rel reg_AB \<subseteq> {(i, p). i < p}"
  proof
    fix x assume "x \<in> anc_rel reg_AB"
    then obtain i p where x: "x = (i, p)" and i: "i < 2" and p: "p < 2" and ne: "i \<noteq> p"
      and cell: "recursiveMap reg_AB ! unat i ! unat p"
      by (auto simp: anc_rel_def reg_AB_def)
    from word_less_2 [OF i] word_less_2 [OF p] ne cell have "i < p"
      by (auto simp: reg_AB_def)
    with x show "x \<in> {(i, p). i < p}" by simp
  qed
  then have d: "acyclic (anc_rel reg_AB)" by (rule acyclic_less)
  have "setParentRecursively 1 0 reg_AB = setParentRecursively_loop 0 1 0 all_set_AB"
    by (simp add: setParentRecursively_def all_set_AB_def reg_AB_def in_range_def set_true_def)
  moreover have "setParentRecursively_loop 0 1 0 all_set_AB = None"
  proof (cases "setParentRecursively_loop 0 1 0 all_set_AB")
    case (Some r)
    from all_set_diverges [OF this] show ?thesis by (simp add: all_set_AB_def reg_AB_def)
  qed simp
  ultimately show ?thesis using a b c d by simp
qed

text \<open>
  C7, amended: on square matrices and for codes below \<open>nTypes\<close>, if the ancestor relation
  together with the pair that the call asserts (\<open>parent\<close> an ancestor of \<open>type\<close>) is
  acyclic off the diagonal, then \<open>setParentRecursively parent type\<close> returns.
\<close>

theorem setParentRecursively_terminates:
  assumes wf: "wf_matrices s" and p: "parent < nTypes s" and t: "type < nTypes s"
    and acyc: "acyclic (anc_rel s \<union> ({(parent, type)} - Id))"
  shows "\<exists>s'. setParentRecursively parent type s = Some (Inr s')"
proof -
  let ?E = "anc_rel s \<union> ({(parent, type)} - Id)"
  let ?W = "?E\<^sup>+"
  let ?sa = "s\<lparr>recursiveMap := set_true (recursiveMap s) parent type\<rparr>"
  from wf have sq: "square (unat (nTypes s)) (recursiveMap s)"
    by (simp add: wf_matrices_def)
  from sq p t have wr: "in_range (recursiveMap s) parent type"
    by (auto simp: word_less_nat_alt intro: square_in_range)
  have "acyclic ?W" using acyc by (simp add: acyclic_def)
  then have wfW: "wf ?W" by (simp add: finite_acyclic_wf)
  have trW: "trans ?W" by (rule trans_trancl)
  have "anc_rel ?sa \<subseteq> insert (parent, type) (anc_rel s)"
    by (rule anc_rel_set_true [OF wr])
  moreover have "(type, type) \<notin> anc_rel ?sa" by (rule anc_rel_irrefl)
  ultimately have "anc_rel ?sa \<subseteq> ?E" by auto
  then have sub: "anc_rel ?sa \<subseteq> ?W" by auto
  have edge: "(parent, type) \<in> ?W \<or> parent = type" by auto
  from loop_terminates [OF wfW trW, of ?sa parent type 0] sq p t sub edge
  obtain rm where "setParentRecursively_loop 0 parent type ?sa = Some (Inr (?sa\<lparr>recursiveMap := rm\<rparr>))"
    by (auto simp: square_set_true)
  with wr show ?thesis by (simp add: setParentRecursively_def)
qed

theorem setParentRecursively_terminates_witness:
  "addType 0xFFFF 1 ''C'' reg_AB
     = Some (Inr (2, reg_ABC, [Lock, Unlock, Lock, Unlock, Signal 2 reg_ABC]))
   \<and> wf_matrices reg_ABC \<and> 1 < nTypes reg_ABC \<and> 2 < nTypes reg_ABC
   \<and> acyclic (anc_rel reg_ABC \<union> ({(1, 2)} - Id))
   \<and> (\<exists>s'. setParentRecursively 1 2 reg_ABC = Some (Inr s'))"
proof -
  have a: "wf_matrices reg_ABC"
    by (simp add: wf_matrices_def square_def reg_ABC_def)
  have b: "1 < nTypes reg_ABC" and c: "2 < nTypes reg_ABC"
    by (simp_all add: reg_ABC_def)
  have "anc_rel reg_ABC \<union> ({(1, 2)} - Id) \<subseteq> {(i, p). i < p}"
    using anc_rel_reg_ABC by auto
  then have d: "acyclic (anc_rel reg_ABC \<union> ({(1, 2)} - Id))"
    by (rule acyclic_less)
  from setParentRecursively_terminates [OF a b c d] a b c d addType_C show ?thesis
    by blast
qed

section \<open>C8: the type counter\<close>

text \<open>
  C8: a call of \<open>addType\<close> that returns leaves \<open>getNumberOfClasses\<close> as it was if the name
  was registered, and has added exactly one to it if it was not; it never lowers it. No
  other operation changes the members: the queries are functions of them. (No name is bound
  to \<open>NOTYPE\<close>, the value that \<open>getType\<close> gives for a name that is not registered.)
\<close>

theorem getNumberOfClasses_monotone:
  assumes run: "addType NOTYPE parent name s = Some (Inr (t, s', evs))"
    and sentinel: "NOTYPE \<notin> ran (name2CodeMap s)"
  shows "(isDefined name s \<longrightarrow> getNumberOfClasses s' = getNumberOfClasses s)
     \<and> (\<not> isDefined name s \<longrightarrow>
            unat (getNumberOfClasses s') = unat (getNumberOfClasses s) + 1)
     \<and> getNumberOfClasses s \<le> getNumberOfClasses s'"
proof -
  have defd: "isDefined name s \<longleftrightarrow> getType NOTYPE name s \<noteq> NOTYPE"
    using sentinel by (auto simp: isDefined_def getType_def ran_def split: option.splits)
  have a: "getNumberOfClasses s' = getNumberOfClasses s" if "isDefined name s"
  proof -
    from that defd have "getType NOTYPE name s \<noteq> NOTYPE" by simp
    from addType_existing_result [OF run this] show ?thesis
      by (auto simp: getNumberOfClasses_def)
  qed
  have b: "unat (getNumberOfClasses s') = unat (getNumberOfClasses s) + 1" if "\<not> isDefined name s"
  proof -
    from that defd have "getType NOTYPE name s = NOTYPE" by simp
    from addType_new_result [OF run this] show ?thesis
      by (auto simp: getNumberOfClasses_def fresh_def)
  qed
  from a b addType_nTypes_mono [OF run] show ?thesis
    by (simp add: getNumberOfClasses_def)
qed

theorem getNumberOfClasses_monotone_witness:
  "addType 0xFFFF 0 ''B'' reg_A
     = Some (Inr (1, reg_AB, [Lock, Unlock, Lock, Unlock, Signal 1 reg_AB]))
   \<and> 0xFFFF \<notin> ran (name2CodeMap reg_A)
   \<and> \<not> isDefined ''B'' reg_A
   \<and> unat (getNumberOfClasses reg_AB) = unat (getNumberOfClasses reg_A) + 1
   \<and> getNumberOfClasses reg_A \<le> getNumberOfClasses reg_AB"
proof -
  have h: "0xFFFF \<notin> ran (name2CodeMap reg_A)"
    by (auto simp: reg_A_def ran_def split: if_splits)
  have n: "\<not> isDefined ''B'' reg_A" by (simp add: isDefined_def reg_A_def)
  from getNumberOfClasses_monotone [OF addType_B h] addType_B h n show ?thesis
    by simp
qed

section \<open>C9: type names in the binding layer\<close>

lemma c_str_plain: "CHR 0x00 \<notin> set cs \<Longrightarrow> c_str cs = cs"
  by (auto simp: c_str_def takeWhile_eq_all_conv)




section \<open>C10: listing all types in the binding layer\<close>



end
